theory Spec2Isabelle
  imports Complex_Main
begin

section \<open>Order book impact analysis: the data model\<close>

text \<open>
  The embedding follows \<^verbatim>\<open>order_book_analysis.cpp\<close>. A C++ \<^verbatim>\<open>int\<close> is read as an
  integer; the two places where a signed 32-bit addition can leave the range (the depth
  sums and the increment of the order size) return \<open>Inl SignedOverflow\<close> there, since the
  language leaves the behaviour undefined.

  A C++ \<^verbatim>\<open>double\<close> is read in two ways. For the claims about the structure of the
  computation (which levels are walked, what is accumulated, which samples are emitted) it
  is a real number with exact arithmetic. For the two claims that compare computed prices
  (C4 and C6) every arithmetic result is rounded to binary64, in a second embedding of the
  same loop that takes the rounding as a parameter; with the rounding left out it is the
  first embedding.
\<close>

datatype error = SignedOverflow

definition INT_MAX :: int where
  "INT_MAX = 2147483647"

definition INT_MIN :: int where
  "INT_MIN = - 2147483648"

text \<open>\<^verbatim>\<open>struct OrderBookLevel\<close>; the field \<^verbatim>\<open>size\<close> is called \<open>size_sh\<close> here.\<close>

record OrderBookLevel =
  price :: real
  size_sh :: int

definition default_level :: OrderBookLevel where
  "default_level = \<lparr>price = 0, size_sh = 0\<rparr>"

definition level_isValid :: "OrderBookLevel \<Rightarrow> bool" where
  "level_isValid l = (price l > 0 \<and> size_sh l > 0)"

text \<open>\<^verbatim>\<open>struct OrderBookSnapshot\<close> and its accessors.\<close>

record OrderBookSnapshot =
  timestamp :: string
  date :: string
  bids :: "OrderBookLevel list"
  asks :: "OrderBookLevel list"

definition getMidPrice :: "OrderBookSnapshot \<Rightarrow> real" where
  "getMidPrice s =
     (if bids s \<noteq> [] \<and> asks s \<noteq> [] \<and> price (bids s ! 0) > 0 \<and> price (asks s ! 0) > 0
      then (price (bids s ! 0) + price (asks s ! 0)) / 2
      else 0)"

definition getSpread :: "OrderBookSnapshot \<Rightarrow> real" where
  "getSpread s =
     (if bids s \<noteq> [] \<and> asks s \<noteq> [] \<and> price (bids s ! 0) > 0 \<and> price (asks s ! 0) > 0
      then price (asks s ! 0) - price (bids s ! 0)
      else 0)"

text \<open>
  \<^verbatim>\<open>std::accumulate\<close> over the level sizes with an \<^verbatim>\<open>int\<close> accumulator: a left fold
  whose every addition has to stay in the 32-bit range.
\<close>

fun accumulate_sizes :: "OrderBookLevel list \<Rightarrow> int \<Rightarrow> error + int" where
  "accumulate_sizes [] acc = Inr acc"
| "accumulate_sizes (level # rest) acc =
     (if acc + size_sh level > INT_MAX \<or> acc + size_sh level < INT_MIN
      then Inl SignedOverflow
      else accumulate_sizes rest (acc + size_sh level))"

definition getTotalBidDepth :: "OrderBookSnapshot \<Rightarrow> error + int" where
  "getTotalBidDepth s = accumulate_sizes (bids s) 0"

definition getTotalAskDepth :: "OrderBookSnapshot \<Rightarrow> error + int" where
  "getTotalAskDepth s = accumulate_sizes (asks s) 0"

definition snapshot_isValid :: "OrderBookSnapshot \<Rightarrow> bool" where
  "snapshot_isValid s = (getMidPrice s > 0)"

text \<open>\<^verbatim>\<open>struct ImpactResult\<close>.\<close>

record ImpactResult =
  order_size :: int
  avg_impact :: real
  impact_bps :: real

section \<open>The impact calculation\<close>

text \<open>
  The body of \<^verbatim>\<open>calculateTemporaryImpact\<close>, innermost loop first. The walk over one side
  of the book carries the three locals \<^verbatim>\<open>total_cost\<close>, \<^verbatim>\<open>total_shares\<close> and
  \<^verbatim>\<open>remaining\<close>; a \<^verbatim>\<open>break\<close> returns them as they are.
\<close>

fun walk_levels :: "OrderBookLevel list \<Rightarrow> real \<times> int \<times> int \<Rightarrow> real \<times> int \<times> int" where
  "walk_levels [] st = st"
| "walk_levels (level # rest) (cost, shares, remaining) =
     (if remaining \<le> 0 \<or> price level \<le> 0 \<or> size_sh level \<le> 0 then (cost, shares, remaining)
      else let take = min remaining (size_sh level)
           in walk_levels rest (cost + real_of_int take * price level, shares + take, remaining - take))"

text \<open>The branch on \<^verbatim>\<open>side == "buy"\<close> that picks the side of the book to walk.\<close>

definition simulate :: "string \<Rightarrow> int \<Rightarrow> OrderBookSnapshot \<Rightarrow> real \<times> int \<times> int" where
  "simulate side osz snapshot =
     (if side = ''buy'' then walk_levels (asks snapshot) (0, 0, osz)
      else walk_levels (bids snapshot) (0, 0, osz))"

definition filled :: "string \<Rightarrow> int \<Rightarrow> OrderBookSnapshot \<Rightarrow> int" where
  "filled side osz snapshot = fst (snd (simulate side osz snapshot))"

definition avg_price :: "string \<Rightarrow> int \<Rightarrow> OrderBookSnapshot \<Rightarrow> real" where
  "avg_price side osz snapshot =
     fst (simulate side osz snapshot) / real_of_int (filled side osz snapshot)"

text \<open>The two impact formulas, chosen by the same string comparison.\<close>

definition impact_value :: "string \<Rightarrow> real \<Rightarrow> real \<Rightarrow> real" where
  "impact_value side avg mid_price =
     (if side = ''buy'' then (avg - mid_price) / mid_price
      else (mid_price - avg) / mid_price)"

text \<open>
  One pass of the loop over the snapshots: \<open>None\<close> when the snapshot is skipped (its
  mid-price is not positive, or no share was executed), otherwise the impact that is
  pushed onto \<^verbatim>\<open>impacts\<close>.
\<close>

definition snapshot_impact :: "string \<Rightarrow> int \<Rightarrow> OrderBookSnapshot \<Rightarrow> real option" where
  "snapshot_impact side osz snapshot =
     (let mid_price = getMidPrice snapshot
      in if mid_price \<le> 0 then None
         else if filled side osz snapshot > 0
              then Some (impact_value side (avg_price side osz snapshot) mid_price)
              else None)"

fun collect_impacts :: "string \<Rightarrow> int \<Rightarrow> OrderBookSnapshot list \<Rightarrow> real list \<Rightarrow> real list" where
  "collect_impacts side osz [] impacts = impacts"
| "collect_impacts side osz (snapshot # rest) impacts =
     collect_impacts side osz rest
       (case snapshot_impact side osz snapshot of
          None \<Rightarrow> impacts
        | Some impact \<Rightarrow> impacts @ [impact])"

text \<open>The average over \<^verbatim>\<open>impacts\<close> and the \<^verbatim>\<open>push_back\<close> onto \<^verbatim>\<open>results\<close>.\<close>

definition emit_result :: "int \<Rightarrow> real list \<Rightarrow> ImpactResult list \<Rightarrow> ImpactResult list" where
  "emit_result osz impacts results =
     (if impacts \<noteq> []
      then let avg = foldl (+) 0 impacts / real (length impacts)
           in results @ [\<lparr>order_size = osz, avg_impact = avg, impact_bps = avg * 10000\<rparr>]
      else results)"

text \<open>
  The loop \<^verbatim>\<open>for (int order_size = 10; order_size <= max_shares; order_size += 10)\<close>.
  The increment is a signed 32-bit addition.
\<close>

function size_loop ::
  "OrderBookSnapshot list \<Rightarrow> string \<Rightarrow> int \<Rightarrow> int \<Rightarrow> ImpactResult list \<Rightarrow> error + ImpactResult list"
where
  "size_loop snapshots side max_shares osz results =
     (if osz \<le> max_shares
      then let results' = emit_result osz (collect_impacts side osz snapshots []) results
           in if osz + 10 > INT_MAX then Inl SignedOverflow
              else size_loop snapshots side max_shares (osz + 10) results'
      else Inr results)"
  by pat_completeness auto
termination
  by (relation "measure (\<lambda>(snapshots, side, max_shares, osz, results). nat (max_shares + 1 - osz))")
     auto

declare size_loop.simps [simp del]

definition calculateTemporaryImpact ::
  "OrderBookSnapshot list \<Rightarrow> string \<Rightarrow> int \<Rightarrow> error + ImpactResult list" where
  "calculateTemporaryImpact snapshots side max_shares = size_loop snapshots side max_shares 10 []"

text \<open>
  What one pass over a snapshot hands to the averaging step: the executed shares and, when
  there are any, the average price \<^verbatim>\<open>total_cost / total_shares\<close>.
\<close>

definition simulator_result :: "string \<Rightarrow> int \<Rightarrow> OrderBookSnapshot \<Rightarrow> int \<times> real option" where
  "simulator_result side osz s =
     (filled side osz s, if filled side osz s > 0 then Some (avg_price side osz s) else None)"

section \<open>Reading a data row\<close>

text \<open>
  The body of the row loop of \<^verbatim>\<open>loadData\<close>, from the split tokens on. The library
  functions \<^verbatim>\<open>std::stod\<close> and \<^verbatim>\<open>std::stoi\<close> are parameters; \<open>None\<close> stands for the
  exception they throw, which the \<^verbatim>\<open>catch\<close> turns into a skipped row. A row that is
  skipped for any reason is \<open>None\<close>.
\<close>

definition extract_date :: "string \<Rightarrow> string" where
  "extract_date filename =
     (if CHR ''_'' \<in> set filename
      then take 10 (drop (Suc (length (takeWhile (\<lambda>c. c \<noteq> CHR ''_'') filename))) filename)
      else [])"

text \<open>
  One guarded assignment \<^verbatim>\<open>if (col < tokens.size() && !tokens[col].empty()) level.price = std::stod(tokens[col])\<close>,
  and the same for the size.
\<close>

definition parse_price ::
  "(string \<Rightarrow> real option) \<Rightarrow> string list \<Rightarrow> nat \<Rightarrow> OrderBookLevel \<Rightarrow> OrderBookLevel option" where
  "parse_price stod tokens col level =
     (if col < length tokens \<and> tokens ! col \<noteq> []
      then (case stod (tokens ! col) of None \<Rightarrow> None | Some p \<Rightarrow> Some (level\<lparr>price := p\<rparr>))
      else Some level)"

definition parse_size ::
  "(string \<Rightarrow> int option) \<Rightarrow> string list \<Rightarrow> nat \<Rightarrow> OrderBookLevel \<Rightarrow> OrderBookLevel option" where
  "parse_size stoi tokens col level =
     (if col < length tokens \<and> tokens ! col \<noteq> []
      then (case stoi (tokens ! col) of None \<Rightarrow> None | Some n \<Rightarrow> Some (level\<lparr>size_sh := n\<rparr>))
      else Some level)"

text \<open>
  One pass of \<^verbatim>\<open>for (int i = 0; i < 10; ++i)\<close> over the two vectors, which were resized
  to ten default levels before the loop.
\<close>

definition parse_level ::
  "(string \<Rightarrow> real option) \<Rightarrow> (string \<Rightarrow> int option) \<Rightarrow> string list \<Rightarrow> nat \<Rightarrow>
   OrderBookLevel list \<times> OrderBookLevel list \<Rightarrow> (OrderBookLevel list \<times> OrderBookLevel list) option" where
  "parse_level stod stoi tokens i st =
     (let bid_px_col = 13 + 6 * i;
          ask_px_col = 14 + 6 * i;
          bid_sz_col = 15 + 6 * i;
          ask_sz_col = 16 + 6 * i
      in case parse_price stod tokens bid_px_col (fst st ! i) of None \<Rightarrow> None | Some b1 \<Rightarrow>
         case parse_size stoi tokens bid_sz_col b1 of None \<Rightarrow> None | Some b2 \<Rightarrow>
         case parse_price stod tokens ask_px_col (snd st ! i) of None \<Rightarrow> None | Some a1 \<Rightarrow>
         case parse_size stoi tokens ask_sz_col a1 of None \<Rightarrow> None | Some a2 \<Rightarrow>
           Some ((fst st)[i := b2], (snd st)[i := a2]))"

fun parse_levels ::
  "(string \<Rightarrow> real option) \<Rightarrow> (string \<Rightarrow> int option) \<Rightarrow> string list \<Rightarrow> nat list \<Rightarrow>
   OrderBookLevel list \<times> OrderBookLevel list \<Rightarrow> (OrderBookLevel list \<times> OrderBookLevel list) option" where
  "parse_levels stod stoi tokens [] st = Some st"
| "parse_levels stod stoi tokens (i # rest) st =
     (case parse_level stod stoi tokens i st of
        None \<Rightarrow> None
      | Some st' \<Rightarrow> parse_levels stod stoi tokens rest st')"

definition parse_row ::
  "(string \<Rightarrow> real option) \<Rightarrow> (string \<Rightarrow> int option) \<Rightarrow> string \<Rightarrow> string list \<Rightarrow>
   OrderBookSnapshot option" where
  "parse_row stod stoi filename tokens =
     (if length tokens < 71 then None
      else case parse_levels stod stoi tokens [0..<10]
                  (replicate 10 default_level, replicate 10 default_level) of
             None \<Rightarrow> None
           | Some st \<Rightarrow>
               if price (fst st ! 0) > 0 \<and> price (snd st ! 0) > 0
               then Some \<lparr>timestamp = tokens ! 0, date = extract_date filename,
                          bids = fst st, asks = snd st\<rparr>
               else None)"

section \<open>Binary64 arithmetic\<close>

text \<open>
  \<open>expo x\<close> is the exponent of a positive real: \<open>2 powi expo x \<le> x < 2 powi (expo x + 1)\<close>.
\<close>

function expo :: "real \<Rightarrow> int" where
  "expo x = (if 2 \<le> x then expo (x / 2) + 1
             else if 0 < x \<and> x < 1 then expo (2 * x) - 1
             else 0)"
  by pat_completeness auto
termination
proof (relation "measure (\<lambda>x. if 2 \<le> x then nat \<lfloor>x\<rfloor> else nat \<lfloor>1 / x\<rfloor>)")
  show "wf (measure (\<lambda>x::real. if 2 \<le> x then nat \<lfloor>x\<rfloor> else nat \<lfloor>1 / x\<rfloor>))" by simp
next
  fix x :: real
  assume x: "2 \<le> x"
  have a: "\<lfloor>x / 2\<rfloor> < \<lfloor>x\<rfloor>"
  proof -
    from x have "x / 2 \<le> x - 1" by simp
    then have "\<lfloor>x / 2\<rfloor> \<le> \<lfloor>x - 1\<rfloor>" by (rule floor_mono)
    then show ?thesis by simp
  qed
  have b: "\<lfloor>2 / x\<rfloor> < \<lfloor>x\<rfloor>"
  proof -
    from x have "2 / x \<le> 1" by simp
    then have "\<lfloor>2 / x\<rfloor> \<le> 1" by (simp add: floor_le_iff)
    moreover from x have "2 \<le> \<lfloor>x\<rfloor>" by (simp add: le_floor_iff)
    ultimately show ?thesis by linarith
  qed
  from x have p: "0 < \<lfloor>x\<rfloor>" by simp
  show "(x / 2, x) \<in> measure (\<lambda>x. if 2 \<le> x then nat \<lfloor>x\<rfloor> else nat \<lfloor>1 / x\<rfloor>)"
    using x a b p by (auto simp: not_le)
next
  fix x :: real
  assume "\<not> 2 \<le> x" and h: "0 < x \<and> x < 1"
  then have y: "1 < 1 / x" by simp
  have "\<lfloor>1 / (2 * x)\<rfloor> < \<lfloor>1 / x\<rfloor>"
  proof (cases "2 \<le> 1 / x")
    case True
    then have "1 / x / 2 \<le> 1 / x - 1" by simp
    then have "\<lfloor>1 / x / 2\<rfloor> \<le> \<lfloor>1 / x - 1\<rfloor>" by (rule floor_mono)
    then show ?thesis by (simp add: field_simps)
  next
    case False
    with y have "1 / (2 * x) < 1" "0 \<le> 1 / (2 * x)" using h by (simp_all add: field_simps)
    then have "\<lfloor>1 / (2 * x)\<rfloor> = 0" by (simp add: floor_eq_iff)
    moreover from y have "1 \<le> \<lfloor>1 / x\<rfloor>" by (simp add: le_floor_iff)
    ultimately show ?thesis by simp
  qed
  moreover from y have "0 < \<lfloor>1 / x\<rfloor>" by (simp add: less_floor_iff)
  ultimately show "(2 * x, x) \<in> measure (\<lambda>x. if 2 \<le> x then nat \<lfloor>x\<rfloor> else nat \<lfloor>1 / x\<rfloor>)"
    using h by auto
qed

declare expo.simps [simp del]

text \<open>
  Rounding to the nearest integer, ties to the even one.
\<close>

definition round_even :: "real \<Rightarrow> int" where
  "round_even y =
     (let f = \<lfloor>y\<rfloor>; d = y - of_int f
      in if d < 1 / 2 then f
         else if 1 / 2 < d then f + 1
         else if even f then f else f + 1)"

text \<open>
  The binary64 number nearest to a real, ties to even: 53 significant bits, and the fixed
  spacing \<open>2 powi (- 1074)\<close> of the subnormal numbers below \<open>2 powi (- 1022)\<close>. The exponent
  is not bounded above here; \<open>b64_op\<close> is the result of one arithmetic operation whose exact
  value is \<open>x\<close>, and reports a value beyond the largest finite binary64 number, where the
  machine returns an infinity, as \<open>Inl NotFinite\<close>.
\<close>

definition b64 :: "real \<Rightarrow> real" where
  "b64 x =
     (if x = 0 then 0
      else let e = max (expo \<bar>x\<bar> - 52) (- 1074)
           in sgn x * of_int (round_even (\<bar>x\<bar> / 2 powi e)) * 2 powi e)"

datatype fp_error = NotFinite

definition b64_max :: real where
  "b64_max = (2 ^ 53 - 1) * 2 ^ 971"

definition b64_op :: "real \<Rightarrow> fp_error + real" where
  "b64_op x = (if \<bar>b64 x\<bar> > b64_max then Inl NotFinite else Inr (b64 x))"

section \<open>The impact calculation with rounding\<close>

text \<open>
  The walk, the mid-price, the average price and the impact once more, with every
  arithmetic result passed through \<open>rnd\<close>: the product \<^verbatim>\<open>take * level.price\<close> and the
  sum \<^verbatim>\<open>total_cost += ...\<close> are two operations, the conversions of \<^verbatim>\<open>take\<close> and
  \<^verbatim>\<open>total_shares\<close> to \<^verbatim>\<open>double\<close> are exact. This is the arithmetic of a compilation
  that keeps every \<^verbatim>\<open>double\<close> in binary64 and does not fuse the product with the sum.
  An operation that is not finite ends the computation with that error.
\<close>

fun walk_levels_fp ::
  "(real \<Rightarrow> fp_error + real) \<Rightarrow> OrderBookLevel list \<Rightarrow> real \<times> int \<times> int \<Rightarrow>
   fp_error + real \<times> int \<times> int" where
  "walk_levels_fp rnd [] st = Inr st"
| "walk_levels_fp rnd (level # rest) (cost, shares, remaining) =
     (if remaining \<le> 0 \<or> price level \<le> 0 \<or> size_sh level \<le> 0
      then Inr (cost, shares, remaining)
      else let take = min remaining (size_sh level)
           in case rnd (real_of_int take * price level) of
                Inl e \<Rightarrow> Inl e
              | Inr product \<Rightarrow>
                  (case rnd (cost + product) of
                     Inl e \<Rightarrow> Inl e
                   | Inr cost' \<Rightarrow>
                       walk_levels_fp rnd rest (cost', shares + take, remaining - take)))"

definition simulate_fp ::
  "(real \<Rightarrow> fp_error + real) \<Rightarrow> string \<Rightarrow> int \<Rightarrow> OrderBookSnapshot \<Rightarrow>
   fp_error + real \<times> int \<times> int" where
  "simulate_fp rnd side osz snapshot =
     (if side = ''buy'' then walk_levels_fp rnd (asks snapshot) (0, 0, osz)
      else walk_levels_fp rnd (bids snapshot) (0, 0, osz))"

definition avg_price_fp ::
  "(real \<Rightarrow> fp_error + real) \<Rightarrow> string \<Rightarrow> int \<Rightarrow> OrderBookSnapshot \<Rightarrow>
   fp_error + real option" where
  "avg_price_fp rnd side osz snapshot =
     (case simulate_fp rnd side osz snapshot of
        Inl e \<Rightarrow> Inl e
      | Inr (cost, shares, remaining) \<Rightarrow>
          if shares > 0
          then (case rnd (cost / real_of_int shares) of
                  Inl e \<Rightarrow> Inl e
                | Inr avg \<Rightarrow> Inr (Some avg))
          else Inr None)"

definition getMidPrice_fp ::
  "(real \<Rightarrow> fp_error + real) \<Rightarrow> OrderBookSnapshot \<Rightarrow> fp_error + real" where
  "getMidPrice_fp rnd s =
     (if bids s \<noteq> [] \<and> asks s \<noteq> [] \<and> price (bids s ! 0) > 0 \<and> price (asks s ! 0) > 0
      then (case rnd (price (bids s ! 0) + price (asks s ! 0)) of
              Inl e \<Rightarrow> Inl e
            | Inr both \<Rightarrow> rnd (both / 2))
      else Inr 0)"

definition impact_value_fp ::
  "(real \<Rightarrow> fp_error + real) \<Rightarrow> string \<Rightarrow> real \<Rightarrow> real \<Rightarrow> fp_error + real" where
  "impact_value_fp rnd side avg mid_price =
     (if side = ''buy''
      then (case rnd (avg - mid_price) of
              Inl e \<Rightarrow> Inl e
            | Inr diff \<Rightarrow> rnd (diff / mid_price))
      else (case rnd (mid_price - avg) of
              Inl e \<Rightarrow> Inl e
            | Inr diff \<Rightarrow> rnd (diff / mid_price)))"

definition snapshot_impact_fp ::
  "(real \<Rightarrow> fp_error + real) \<Rightarrow> string \<Rightarrow> int \<Rightarrow> OrderBookSnapshot \<Rightarrow>
   fp_error + real option" where
  "snapshot_impact_fp rnd side osz snapshot =
     (case getMidPrice_fp rnd snapshot of
        Inl e \<Rightarrow> Inl e
      | Inr mid_price \<Rightarrow>
          if mid_price \<le> 0 then Inr None
          else (case avg_price_fp rnd side osz snapshot of
                  Inl e \<Rightarrow> Inl e
                | Inr None \<Rightarrow> Inr None
                | Inr (Some avg) \<Rightarrow>
                    (case impact_value_fp rnd side avg mid_price of
                       Inl e \<Rightarrow> Inl e
                     | Inr impact \<Rightarrow> Inr (Some impact))))"

section \<open>Notions of the specification\<close>

text \<open>
  The levels a walk takes shares from: the prefix of the side on which the loop body runs.
  It repeats the guard of \<open>walk_levels\<close> and nothing else.
\<close>

fun consumed :: "int \<Rightarrow> OrderBookLevel list \<Rightarrow> OrderBookLevel list" where
  "consumed remaining [] = []"
| "consumed remaining (level # rest) =
     (if remaining \<le> 0 \<or> price level \<le> 0 \<or> size_sh level \<le> 0 then []
      else level # consumed (remaining - min remaining (size_sh level)) rest)"

text \<open>
  The side of the book an order consumes, and the depth accessor of that side.
\<close>

definition consumption_side :: "string \<Rightarrow> OrderBookSnapshot \<Rightarrow> OrderBookLevel list" where
  "consumption_side side s = (if side = ''buy'' then asks s else bids s)"

definition total_depth :: "string \<Rightarrow> OrderBookSnapshot \<Rightarrow> error + int" where
  "total_depth side s = (if side = ''buy'' then getTotalAskDepth s else getTotalBidDepth s)"

text \<open>
  The execution simulator as the specification words it: a side that is one of two values,
  a walk that stops when \<open>remaining = 0\<close>, at an invalid level or at the end of the side,
  and a result made of the filled quantity and the average price, undefined when nothing
  was filled.
\<close>

datatype spec_side = Buy | Sell

fun side_name :: "spec_side \<Rightarrow> string" where
  "side_name Buy = ''buy''"
| "side_name Sell = ''sell''"

fun spec_levels :: "spec_side \<Rightarrow> OrderBookSnapshot \<Rightarrow> OrderBookLevel list" where
  "spec_levels Buy s = asks s"
| "spec_levels Sell s = bids s"

fun spec_walk :: "int \<Rightarrow> OrderBookLevel list \<Rightarrow> real \<times> int" where
  "spec_walk remaining [] = (0, 0)"
| "spec_walk remaining (level # rest) =
     (if remaining = 0 \<or> \<not> level_isValid level then (0, 0)
      else let take = min remaining (size_sh level);
               (cost, fill) = spec_walk (remaining - take) rest
           in (real_of_int take * price level + cost, take + fill))"

definition spec_simulate :: "OrderBookSnapshot \<Rightarrow> spec_side \<Rightarrow> int \<Rightarrow> int \<times> real option" where
  "spec_simulate s sd quantity =
     (let (cost, fill) = spec_walk quantity (spec_levels sd s)
      in (fill, if fill = 0 then None else Some (cost / real_of_int fill)))"

text \<open>
  The curve builder as the specification words it: the order sizes from \<open>min_size\<close> to
  \<open>max_size\<close> in steps of \<open>step\<close>, the snapshots that contribute to a size, the impacts
  they contribute, and the sample emitted for a size, if any.
\<close>

definition step_sequence :: "int \<Rightarrow> int \<Rightarrow> int \<Rightarrow> int list" where
  "step_sequence min_size max_size step =
     map (\<lambda>k. min_size + step * int k) [0..<nat ((max_size - min_size) div step + 1)]"

definition contributing :: "string \<Rightarrow> int \<Rightarrow> OrderBookSnapshot \<Rightarrow> bool" where
  "contributing side n s = (0 < getMidPrice s \<and> filled side n s \<noteq> 0)"

definition accumulated :: "OrderBookSnapshot list \<Rightarrow> string \<Rightarrow> int \<Rightarrow> real list" where
  "accumulated snapshots side n =
     map (\<lambda>s. impact_value side (avg_price side n s) (getMidPrice s))
       (filter (contributing side n) snapshots)"

definition arithmetic_mean :: "real list \<Rightarrow> real" where
  "arithmetic_mean xs = sum_list xs / real (length xs)"

definition size_sample :: "OrderBookSnapshot list \<Rightarrow> string \<Rightarrow> int \<Rightarrow> ImpactResult list" where
  "size_sample snapshots side n =
     (if accumulated snapshots side n = [] then []
      else [\<lparr>order_size = n,
             avg_impact = arithmetic_mean (accumulated snapshots side n),
             impact_bps = arithmetic_mean (accumulated snapshots side n) * 10000\<rparr>])"

text \<open>
  The test the mid-price accessor makes on the two best levels: their prices only.
\<close>

definition best_prices_positive :: "OrderBookSnapshot \<Rightarrow> bool" where
  "best_prices_positive s =
     (bids s \<noteq> [] \<and> asks s \<noteq> [] \<and> 0 < price (hd (bids s)) \<and> 0 < price (hd (asks s)))"

text \<open>
  What holds of the two vectors throughout the row loop: ten entries each, and a field
  whose token is empty still has its default value 0.
\<close>

definition placeholder_inv :: "string list \<Rightarrow> OrderBookLevel list \<times> OrderBookLevel list \<Rightarrow> bool" where
  "placeholder_inv tokens st =
     (length (fst st) = 10 \<and> length (snd st) = 10 \<and>
      (\<forall>i<10. (tokens ! (13 + 6 * i) = [] \<longrightarrow> price (fst st ! i) = 0) \<and>
              (tokens ! (15 + 6 * i) = [] \<longrightarrow> size_sh (fst st ! i) = 0) \<and>
              (tokens ! (14 + 6 * i) = [] \<longrightarrow> price (snd st ! i) = 0) \<and>
              (tokens ! (16 + 6 * i) = [] \<longrightarrow> size_sh (snd st ! i) = 0)))"

text \<open>
  Half the spacing of binary64 numbers relative to their size, and the range of prices for
  which no operation of a walk over at most ten levels leaves the normal range.
\<close>

definition u53 :: real where
  "u53 = 1 / 2 ^ 53"

definition price_min :: real where
  "price_min = 1 / 2 ^ 1000"

definition price_max :: real where
  "price_max = 2 ^ 990"

section \<open>Sample books and rows\<close>

definition two_level_book :: OrderBookSnapshot where
  "two_level_book = \<lparr>timestamp = ''t0'', date = ''2025-07-01'',
     bids = [\<lparr>price = 99, size_sh = 5\<rparr>, \<lparr>price = 98, size_sh = 5\<rparr>],
     asks = [\<lparr>price = 101, size_sh = 5\<rparr>, \<lparr>price = 102, size_sh = 5\<rparr>]\<rparr>"

definition negative_size_book :: OrderBookSnapshot where
  "negative_size_book = \<lparr>timestamp = ''t1'', date = ''2025-07-01'',
     bids = [\<lparr>price = 99, size_sh = 5\<rparr>],
     asks = [\<lparr>price = 101, size_sh = 5\<rparr>, \<lparr>price = 102, size_sh = - 7\<rparr>]\<rparr>"

definition crossed_book :: OrderBookSnapshot where
  "crossed_book = \<lparr>timestamp = ''t2'', date = ''2025-07-01'',
     bids = [\<lparr>price = 200, size_sh = 5\<rparr>, \<lparr>price = 199, size_sh = 5\<rparr>],
     asks = [\<lparr>price = 100, size_sh = 5\<rparr>, \<lparr>price = 101, size_sh = 5\<rparr>]\<rparr>"

definition zero_size_bid_book :: OrderBookSnapshot where
  "zero_size_bid_book = \<lparr>timestamp = ''t3'', date = ''2025-07-01'',
     bids = [\<lparr>price = 100, size_sh = 0\<rparr>],
     asks = [\<lparr>price = 101, size_sh = 5\<rparr>]\<rparr>"

definition no_bid_book :: OrderBookSnapshot where
  "no_bid_book = \<lparr>timestamp = ''t4'', date = ''2025-07-01'',
     bids = [\<lparr>price = 0, size_sh = 0\<rparr>],
     asks = [\<lparr>price = 101, size_sh = 5\<rparr>]\<rparr>"

text \<open>
  The book of the worked example of the specification: asks of 5 shares at 100.00 and at
  100.05, with a bid side that puts the mid-price at 100.
\<close>

definition scenario_book :: OrderBookSnapshot where
  "scenario_book = \<lparr>timestamp = ''t5'', date = ''2025-07-01'',
     bids = [\<lparr>price = 100, size_sh = 5\<rparr>, \<lparr>price = 1999 / 20, size_sh = 5\<rparr>],
     asks = [\<lparr>price = 100, size_sh = 5\<rparr>, \<lparr>price = 2001 / 20, size_sh = 5\<rparr>]\<rparr>"

text \<open>
  Books whose prices are binary64 numbers that are not short decimals:
  \<open>7926335344172073 / 2 ^ 56\<close> is the binary64 number nearest to 0.11 and
  \<open>3602879701896397 / 2 ^ 55\<close> the one nearest to 0.10. The last book has the price
  \<open>2 ^ 1023\<close>, a finite binary64 number.
\<close>

definition rounding_book :: OrderBookSnapshot where
  "rounding_book = \<lparr>timestamp = ''t6'', date = ''2025-07-01'',
     bids = [\<lparr>price = 3602879701896397 / 2 ^ 55, size_sh = 10\<rparr>],
     asks = [\<lparr>price = 7926335344172073 / 2 ^ 56, size_sh = 10\<rparr>]\<rparr>"

definition locked_book :: OrderBookSnapshot where
  "locked_book = \<lparr>timestamp = ''t7'', date = ''2025-07-01'',
     bids = [\<lparr>price = 7926335344172073 / 2 ^ 56, size_sh = 10\<rparr>],
     asks = [\<lparr>price = 7926335344172073 / 2 ^ 56, size_sh = 10\<rparr>]\<rparr>"

definition overflow_book :: OrderBookSnapshot where
  "overflow_book = \<lparr>timestamp = ''t8'', date = ''2025-07-01'',
     bids = [\<lparr>price = 2 ^ 1023, size_sh = 10\<rparr>],
     asks = [\<lparr>price = 2 ^ 1023, size_sh = 10\<rparr>]\<rparr>"

text \<open>
  Two data rows of 74 tokens that differ in the four fields of the tenth level only: empty
  in one, the text \<open>0\<close> in the other. \<open>sample_stod\<close> and \<open>sample_stoi\<close> give the values
  of \<^verbatim>\<open>std::stod\<close> and \<^verbatim>\<open>std::stoi\<close> on the strings of these rows.
\<close>

definition sample_stod :: "string \<Rightarrow> real option" where
  "sample_stod t =
     (if t = ''100'' then Some 100 else if t = ''101'' then Some 101
      else if t = ''0'' then Some 0 else None)"

definition sample_stoi :: "string \<Rightarrow> int option" where
  "sample_stoi t =
     (if t = ''5'' then Some 5 else if t = ''7'' then Some 7
      else if t = ''0'' then Some 0 else None)"

definition sample_row :: "string \<Rightarrow> string list" where
  "sample_row f =
     [''ts''] @ replicate 12 ''x'' @ [''100'', ''101'', ''5'', ''7'', ''1'', ''1''] @
     replicate 48 [] @ [f, f, f, f, ''1'', ''1'', ''CRWV'']"

definition sample_snapshot :: OrderBookSnapshot where
  "sample_snapshot = \<lparr>timestamp = ''ts'', date = ''2025-07-01'',
     bids = \<lparr>price = 100, size_sh = 5\<rparr> # replicate 9 \<lparr>price = 0, size_sh = 0\<rparr>,
     asks = \<lparr>price = 101, size_sh = 7\<rparr> # replicate 9 \<lparr>price = 0, size_sh = 0\<rparr>\<rparr>"

section \<open>The walk over one side\<close>

lemma walk_levels_stop: "r \<le> 0 \<Longrightarrow> walk_levels ls (c, n, r) = (c, n, r)"
  by (cases ls) auto

lemma valid_prefix_sum_nonneg:
  "0 \<le> sum_list (map size_sh (takeWhile level_isValid ls))"
  by (induction ls) (auto simp: level_isValid_def)

lemma walk_levels_shares:
  "0 \<le> r \<Longrightarrow>
   fst (snd (walk_levels ls (c, n, r))) =
     n + min r (sum_list (map size_sh (takeWhile level_isValid ls)))"
proof (induction ls arbitrary: c n r)
  case Nil
  then show ?case by simp
next
  case (Cons l ls)
  have nn: "0 \<le> sum_list (map size_sh (takeWhile level_isValid ls))"
    by (rule valid_prefix_sum_nonneg)
  show ?case
  proof (cases "r \<le> 0 \<or> price l \<le> 0 \<or> size_sh l \<le> 0")
    case True
    have w: "walk_levels (l # ls) (c, n, r) = (c, n, r)"
      using True by simp
    have "min r (sum_list (map size_sh (takeWhile level_isValid (l # ls)))) = 0"
    proof (cases "level_isValid l")
      case True
      with \<open>r \<le> 0 \<or> price l \<le> 0 \<or> size_sh l \<le> 0\<close> have "r \<le> 0"
        by (simp add: level_isValid_def)
      with Cons.prems valid_prefix_sum_nonneg [of "l # ls"] show ?thesis
        by (simp add: min_def)
    next
      case False
      with Cons.prems show ?thesis by simp
    qed
    with w show ?thesis by simp
  next
    case False
    then have v: "level_isValid l" by (simp add: level_isValid_def)
    have r': "0 \<le> r - min r (size_sh l)" by simp
    show ?thesis
      using False v nn Cons.IH [OF r'] by (simp add: Let_def min_def)
  qed
qed

lemma walk_levels_cost_lower:
  "\<forall>l \<in> set (consumed r ls). lo \<le> price l \<Longrightarrow>
   walk_levels ls (c, n, r) = (c', n', r') \<Longrightarrow>
   lo * real_of_int (n' - n) \<le> c' - c"
proof (induction ls arbitrary: c n r)
  case Nil
  then show ?case by simp
next
  case (Cons l ls)
  show ?case
  proof (cases "r \<le> 0 \<or> price l \<le> 0 \<or> size_sh l \<le> 0")
    case True
    with Cons.prems show ?thesis by auto
  next
    case False
    let ?t = "min r (size_sh l)"
    from False have t: "0 < ?t" by simp
    from False Cons.prems(1) have lo: "lo \<le> price l"
      and rest: "\<forall>x \<in> set (consumed (r - ?t) ls). lo \<le> price x" by auto
    from False Cons.prems(2)
    have w: "walk_levels ls (c + real_of_int ?t * price l, n + ?t, r - ?t) = (c', n', r')"
      by (simp add: Let_def)
    from Cons.IH [OF rest w]
    have ih: "lo * real_of_int (n' - (n + ?t)) \<le> c' - (c + real_of_int ?t * price l)" .
    have "lo * real_of_int ?t \<le> real_of_int ?t * price l"
      using lo t by (simp add: mult.commute mult_left_mono)
    with ih show ?thesis by (simp add: algebra_simps)
  qed
qed

lemma walk_levels_cost_upper:
  "\<forall>l \<in> set (consumed r ls). price l \<le> hi \<Longrightarrow>
   walk_levels ls (c, n, r) = (c', n', r') \<Longrightarrow>
   c' - c \<le> hi * real_of_int (n' - n)"
proof (induction ls arbitrary: c n r)
  case Nil
  then show ?case by simp
next
  case (Cons l ls)
  show ?case
  proof (cases "r \<le> 0 \<or> price l \<le> 0 \<or> size_sh l \<le> 0")
    case True
    with Cons.prems show ?thesis by auto
  next
    case False
    let ?t = "min r (size_sh l)"
    from False have t: "0 < ?t" by simp
    from False Cons.prems(1) have hi: "price l \<le> hi"
      and rest: "\<forall>x \<in> set (consumed (r - ?t) ls). price x \<le> hi" by auto
    from False Cons.prems(2)
    have w: "walk_levels ls (c + real_of_int ?t * price l, n + ?t, r - ?t) = (c', n', r')"
      by (simp add: Let_def)
    from Cons.IH [OF rest w]
    have ih: "c' - (c + real_of_int ?t * price l) \<le> hi * real_of_int (n' - (n + ?t))" .
    have "real_of_int ?t * price l \<le> hi * real_of_int ?t"
      using hi t by (simp add: mult.commute mult_left_mono)
    with ih show ?thesis by (simp add: algebra_simps)
  qed
qed

lemma walk_levels_consumed_nonempty:
  "walk_levels ls (c, n, r) = (c', n', r') \<Longrightarrow> n < n' \<Longrightarrow> consumed r ls \<noteq> []"
  by (cases ls) (auto split: if_splits)

text \<open>
  The consumed levels are a prefix of the side, all of them valid, and the walk over the
  side is the walk over that prefix.
\<close>

lemma consumed_prefix: "\<exists>rest. ls = consumed r ls @ rest"
  by (induction ls arbitrary: r) auto

lemma consumed_valid: "l \<in> set (consumed r ls) \<Longrightarrow> level_isValid l"
  by (induction ls arbitrary: r) (auto simp: level_isValid_def split: if_splits)

lemma walk_levels_consumed:
  "walk_levels (consumed r ls) (c, n, r) = walk_levels ls (c, n, r)"
  by (induction ls arbitrary: c n r) (auto simp: Let_def)

lemma simulate_walk:
  "simulate side q s = walk_levels (consumption_side side s) (0, 0, q)"
  by (simp add: simulate_def consumption_side_def)

lemma filled_eq:
  "filled side q s =
     (if q \<le> 0 then 0
      else min q (sum_list (map size_sh (takeWhile level_isValid (consumption_side side s)))))"
proof (cases "q \<le> 0")
  case True
  then show ?thesis
    by (simp add: filled_def simulate_walk walk_levels_stop)
next
  case False
  then have "0 \<le> q" by simp
  from walk_levels_shares [OF this, of "consumption_side side s" 0 0] False
  show ?thesis by (simp add: filled_def simulate_walk)
qed

lemma filled_nonneg: "0 \<le> filled side q s"
  using valid_prefix_sum_nonneg [of "consumption_side side s"]
  by (simp add: filled_eq)

lemma simulate_bounds:
  assumes f: "0 < filled side q s"
  shows "consumed q (consumption_side side s) \<noteq> []"
    and "\<forall>l \<in> set (consumed q (consumption_side side s)). lo \<le> price l \<Longrightarrow>
         lo \<le> avg_price side q s"
    and "\<forall>l \<in> set (consumed q (consumption_side side s)). price l \<le> hi \<Longrightarrow>
         avg_price side q s \<le> hi"
proof -
  obtain c n r where w: "walk_levels (consumption_side side s) (0, 0, q) = (c, n, r)"
    by (cases "walk_levels (consumption_side side s) (0, 0, q)") auto
  from f w have n: "0 < n" by (simp add: filled_def simulate_walk)
  from w have avg: "avg_price side q s = c / real_of_int n"
    by (simp add: avg_price_def filled_def simulate_walk)
  from walk_levels_consumed_nonempty [OF w n]
  show "consumed q (consumption_side side s) \<noteq> []" .
  {
    assume "\<forall>l \<in> set (consumed q (consumption_side side s)). lo \<le> price l"
    from walk_levels_cost_lower [OF this w] have "lo * real_of_int n \<le> c" by simp
    with n show "lo \<le> avg_price side q s"
      by (simp add: avg pos_le_divide_eq)
  }
  {
    assume "\<forall>l \<in> set (consumed q (consumption_side side s)). price l \<le> hi"
    from walk_levels_cost_upper [OF this w] have "c \<le> hi * real_of_int n" by simp
    with n show "avg_price side q s \<le> hi"
      by (simp add: avg pos_divide_le_eq)
  }
qed




lemma walk_levels_spec_walk:
  "0 \<le> r \<Longrightarrow>
   walk_levels ls (c, n, r) =
     (c + fst (spec_walk r ls), n + snd (spec_walk r ls), r - snd (spec_walk r ls))"
proof (induction ls arbitrary: c n r)
  case Nil
  show ?case by simp
next
  case (Cons l ls)
  show ?case
  proof (cases "r = 0 \<or> \<not> level_isValid l")
    case True
    with Cons.prems show ?thesis by (auto simp: level_isValid_def)
  next
    case False
    let ?t = "min r (size_sh l)"
    from False Cons.prems have g: "\<not> (r \<le> 0 \<or> price l \<le> 0 \<or> size_sh l \<le> 0)"
      by (auto simp: level_isValid_def)
    have r': "0 \<le> r - ?t" by simp
    have w: "walk_levels (l # ls) (c, n, r) =
        walk_levels ls (c + real_of_int ?t * price l, n + ?t, r - ?t)"
      using g by (simp add: Let_def)
    have sw: "spec_walk r (l # ls) =
        (real_of_int ?t * price l + fst (spec_walk (r - ?t) ls),
         ?t + snd (spec_walk (r - ?t) ls))"
      using False by (simp add: Let_def split: prod.splits)
    show ?thesis
      unfolding w sw Cons.IH [OF r'] by (simp add: algebra_simps)
  qed
qed

section \<open>The depth accessors\<close>

lemma sizes_sum_nonneg:
  "\<forall>l \<in> set ls. 0 \<le> size_sh l \<Longrightarrow> 0 \<le> sum_list (map size_sh ls)"
  by (induction ls) auto

lemma accumulate_sizes_sum:
  "accumulate_sizes ls acc = Inr d \<Longrightarrow> d = acc + sum_list (map size_sh ls)"
proof (induction ls arbitrary: acc)
  case Nil
  then show ?case by simp
next
  case (Cons l ls)
  from Cons.prems have "accumulate_sizes ls (acc + size_sh l) = Inr d"
    by (simp split: if_splits)
  from Cons.IH [OF this] show ?case by simp
qed

lemma takeWhile_sum_le:
  "\<forall>l \<in> set ls. 0 \<le> size_sh l \<Longrightarrow>
   sum_list (map size_sh (takeWhile P ls)) \<le> sum_list (map size_sh ls)"
proof (induction ls)
  case Nil
  then show ?case by simp
next
  case (Cons l ls)
  then have "0 \<le> sum_list (map size_sh ls)" by (simp add: sizes_sum_nonneg)
  with Cons show ?case by auto
qed

section \<open>One snapshot, one size\<close>

lemma best_prices_positive_nth:
  "best_prices_positive s =
     (bids s \<noteq> [] \<and> asks s \<noteq> [] \<and> 0 < price (bids s ! 0) \<and> 0 < price (asks s ! 0))"
  by (auto simp: best_prices_positive_def hd_conv_nth)

lemma getMidPrice_cases:
  "getMidPrice s =
     (if best_prices_positive s then (price (hd (bids s)) + price (hd (asks s))) / 2 else 0)"
  by (auto simp: getMidPrice_def best_prices_positive_nth hd_conv_nth)

lemma mid_nonpos_skipped: "getMidPrice s \<le> 0 \<Longrightarrow> snapshot_impact side n s = None"
  by (simp add: snapshot_impact_def)

lemma skipped_snapshot_collect:
  "snapshot_impact side n s = None \<Longrightarrow>
   collect_impacts side n (pre @ s # post) acc = collect_impacts side n (pre @ post) acc"
  by (induction pre arbitrary: acc) simp_all

lemma foldl_plus_sum_list: "foldl (+) a xs = a + sum_list (xs :: real list)"
  by (induction xs arbitrary: a) (auto simp: algebra_simps)

lemma collect_impacts_accumulated:
  "collect_impacts side n snapshots acc = acc @ accumulated snapshots side n"
proof (induction snapshots arbitrary: acc)
  case Nil
  show ?case by (simp add: accumulated_def)
next
  case (Cons s snapshots)
  show ?case
  proof (cases "contributing side n s")
    case True
    with filled_nonneg [of side n s] have "0 < getMidPrice s" "0 < filled side n s"
      by (simp_all add: contributing_def)
    then have "snapshot_impact side n s =
        Some (impact_value side (avg_price side n s) (getMidPrice s))"
      by (simp add: snapshot_impact_def Let_def)
    with True show ?thesis by (simp add: Cons.IH accumulated_def)
  next
    case False
    then have "snapshot_impact side n s = None"
      by (auto simp: snapshot_impact_def contributing_def Let_def)
    with False show ?thesis by (simp add: Cons.IH accumulated_def)
  qed
qed

lemma emit_result_sample:
  "emit_result n (collect_impacts side n snapshots []) results =
     results @ size_sample snapshots side n"
  by (simp add: emit_result_def collect_impacts_accumulated size_sample_def
      arithmetic_mean_def foldl_plus_sum_list Let_def)

lemma simulate_not_buy: "side \<noteq> ''buy'' \<Longrightarrow> simulate side q s = simulate ''sell'' q s"
  by (simp add: simulate_def)

lemma snapshot_impact_not_buy:
  "side \<noteq> ''buy'' \<Longrightarrow> snapshot_impact side q s = snapshot_impact ''sell'' q s"
proof -
  assume nb: "side \<noteq> ''buy''"
  have f: "filled side q s = filled ''sell'' q s"
    by (simp add: filled_def simulate_not_buy [OF nb])
  have a: "avg_price side q s = avg_price ''sell'' q s"
    by (simp add: avg_price_def f simulate_not_buy [OF nb])
  have i: "\<And>v m. impact_value side v m = impact_value ''sell'' v m"
    using nb by (simp add: impact_value_def)
  show ?thesis by (simp add: snapshot_impact_def Let_def f a i cong: if_cong)
qed

lemma collect_impacts_not_buy:
  assumes nb: "side \<noteq> ''buy''"
  shows "collect_impacts side q snapshots acc = collect_impacts ''sell'' q snapshots acc"
  by (induction snapshots arbitrary: acc) (simp_all add: snapshot_impact_not_buy [OF nb])

section \<open>The loop over the order sizes\<close>

text \<open>
  The loop returns the samples of the step sequence when \<open>max_shares\<close> is below
  2147483640, and runs into the overflow of its counter from there on.
\<close>

lemma step_sequence_Cons:
  "osz \<le> max_shares \<Longrightarrow>
   step_sequence osz max_shares 10 = osz # step_sequence (osz + 10) max_shares 10"
proof -
  assume le: "osz \<le> max_shares"
  let ?d = "(max_shares - osz) div 10"
  from le have d: "0 \<le> ?d" by simp
  have e: "(max_shares - (osz + 10)) div 10 + 1 = ?d" by simp
  from d have n: "nat (?d + 1) = Suc (nat ?d)" by simp
  have "[0..<Suc (nat ?d)] = 0 # map Suc [0..<nat ?d]"
    by (simp add: map_Suc_upt upt_conv_Cons)
  then show ?thesis
    unfolding step_sequence_def e n by (simp add: o_def algebra_simps)
qed

lemma step_sequence_Nil:
  "max_shares < osz \<Longrightarrow> step_sequence osz max_shares 10 = []"
proof -
  assume "max_shares < osz"
  then have "(max_shares - osz) div 10 + 1 \<le> 0" by simp
  then show ?thesis by (simp add: step_sequence_def)
qed

lemma step_sequence_set:
  "set (step_sequence 10 max_shares 10) = {n. 10 \<le> n \<and> n \<le> max_shares \<and> n mod 10 = 0}"
proof (intro set_eqI iffI)
  fix n
  assume "n \<in> set (step_sequence 10 max_shares 10)"
  then obtain k where k: "k < nat ((max_shares - 10) div 10 + 1)" and n: "n = 10 + 10 * int k"
    by (auto simp: step_sequence_def)
  from k have "int k \<le> (max_shares - 10) div 10" by simp
  then have "10 * int k \<le> max_shares - 10" by presburger
  with n show "n \<in> {n. 10 \<le> n \<and> n \<le> max_shares \<and> n mod 10 = 0}" by simp
next
  fix n
  assume "n \<in> {n. 10 \<le> n \<and> n \<le> max_shares \<and> n mod 10 = 0}"
  then have a: "10 \<le> n" and b: "n \<le> max_shares" and c: "n mod 10 = 0" by auto
  let ?k = "nat ((n - 10) div 10)"
  from a c have n: "n = 10 + 10 * int ?k" by simp presburger
  from a b have "(n - 10) div 10 \<le> (max_shares - 10) div 10" by presburger
  with a have "?k < nat ((max_shares - 10) div 10 + 1)" by simp
  then have "?k \<in> set [0..<nat ((max_shares - 10) div 10 + 1)]" by simp
  with n show "n \<in> set (step_sequence 10 max_shares 10)"
    unfolding step_sequence_def set_map by (rule image_eqI)
qed

lemma step_sequence_sorted: "sorted_wrt (<) (step_sequence a b 10)"
  by (simp add: step_sequence_def sorted_wrt_map sorted_wrt_iff_nth_less)

lemma step_sequence_distinct: "distinct (step_sequence a b 10)"
  using step_sequence_sorted strict_sorted_iff by blast

lemma size_loop_result:
  "osz mod 10 = 0 \<Longrightarrow> max_shares < 2147483640 \<Longrightarrow>
   size_loop snapshots side max_shares osz results =
     Inr (results @ concat (map (size_sample snapshots side) (step_sequence osz max_shares 10)))"
proof (induction snapshots side max_shares osz results rule: size_loop.induct)
  case (1 snapshots side max_shares osz results)
  show ?case
  proof (cases "osz \<le> max_shares")
    case False
    then show ?thesis
      by (subst size_loop.simps) (simp add: step_sequence_Nil)
  next
    case True
    from True "1.prems" have no: "\<not> osz + 10 > INT_MAX"
      by (simp add: INT_MAX_def) presburger
    from "1.prems" have m: "(osz + 10) mod 10 = 0" by presburger
    have ih: "size_loop snapshots side max_shares (osz + 10)
        (emit_result osz (collect_impacts side osz snapshots []) results) =
      Inr (emit_result osz (collect_impacts side osz snapshots []) results @
        concat (map (size_sample snapshots side) (step_sequence (osz + 10) max_shares 10)))"
      using "1.IH" [OF True refl no m "1.prems"(2)] .
    show ?thesis
      apply (subst size_loop.simps)
      using True no ih
      apply (simp add: Let_def step_sequence_Cons emit_result_sample)
      done
  qed
qed

lemma size_loop_overflow:
  "osz mod 10 = 0 \<Longrightarrow> osz \<le> 2147483640 \<Longrightarrow> 2147483640 \<le> max_shares \<Longrightarrow>
   size_loop snapshots side max_shares osz results = Inl SignedOverflow"
proof (induction snapshots side max_shares osz results rule: size_loop.induct)
  case (1 snapshots side max_shares osz results)
  from "1.prems" have le: "osz \<le> max_shares" by simp
  show ?case
  proof (cases "osz + 10 > INT_MAX")
    case True
    with le show ?thesis by (subst size_loop.simps) simp
  next
    case False
    from "1.prems" have m: "(osz + 10) mod 10 = 0" by presburger
    from False "1.prems" have b: "osz + 10 \<le> 2147483640"
      by (simp add: INT_MAX_def) presburger
    from "1.IH" [OF le refl False m b "1.prems"(3)] le False
    show ?thesis by (subst size_loop.simps) (simp add: Let_def)
  qed
qed

lemma calculateTemporaryImpact_result:
  "max_shares < 2147483640 \<Longrightarrow>
   calculateTemporaryImpact snapshots side max_shares =
     Inr (concat (map (size_sample snapshots side) (step_sequence 10 max_shares 10)))"
  by (simp add: calculateTemporaryImpact_def size_loop_result)

lemma calculateTemporaryImpact_overflow:
  "2147483640 \<le> max_shares \<Longrightarrow>
   calculateTemporaryImpact snapshots side max_shares = Inl SignedOverflow"
  by (simp add: calculateTemporaryImpact_def size_loop_overflow)

lemma size_sample_order: "r \<in> set (size_sample snapshots side n) \<Longrightarrow> order_size r = n"
  by (auto simp: size_sample_def split: if_splits)

lemma filter_concat_samples:
  "distinct ns \<Longrightarrow>
   filter (\<lambda>r. order_size r = n) (concat (map (size_sample snapshots side) ns)) =
     (if n \<in> set ns then size_sample snapshots side n else [])"
proof (induction ns)
  case Nil
  then show ?case by simp
next
  case (Cons a ns)
  have same: "filter (\<lambda>r. order_size r = n) (size_sample snapshots side n) =
      size_sample snapshots side n"
    by (simp add: size_sample_def)
  have other: "\<And>b. b \<noteq> n \<Longrightarrow>
      filter (\<lambda>r. order_size r = n) (size_sample snapshots side b) = []"
    by (simp add: size_sample_def)
  from Cons.prems have d: "distinct ns" and a: "a \<notin> set ns" by auto
  show ?case
  proof (cases "a = n")
    case True
    with a Cons.IH [OF d] same show ?thesis by simp
  next
    case False
    with Cons.IH [OF d] other [OF False] show ?thesis by simp
  qed
qed

lemma map_order_size_samples:
  "map order_size (concat (map (size_sample snapshots side) ns)) =
     filter (\<lambda>n. accumulated snapshots side n \<noteq> []) ns"
  by (induction ns) (auto simp: size_sample_def)

lemma size_loop_cong:
  "(\<And>n. collect_impacts side n xs [] = collect_impacts side n ys []) \<Longrightarrow>
   size_loop xs side max_shares osz results = size_loop ys side max_shares osz results"
proof (induction xs side max_shares osz results rule: size_loop.induct)
  case (1 xs side max_shares osz results)
  show ?case
  proof (cases "osz \<le> max_shares \<and> \<not> osz + 10 > INT_MAX")
    case True
    then have a: "osz \<le> max_shares" and b: "\<not> osz + 10 > INT_MAX" by auto
    from "1.IH" [OF a refl b "1.prems"] a b show ?thesis
      apply (subst size_loop.simps)
      apply (subst (2) size_loop.simps)
      apply (simp add: Let_def "1.prems")
      done
  next
    case False
    then show ?thesis
      apply (subst size_loop.simps)
      apply (subst (2) size_loop.simps)
      apply (auto simp: Let_def)
      done
  qed
qed

lemma size_loop_not_buy:
  "side \<noteq> ''buy'' \<Longrightarrow>
   size_loop snapshots side max_shares osz results =
   size_loop snapshots ''sell'' max_shares osz results"
proof (induction snapshots side max_shares osz results rule: size_loop.induct)
  case (1 snapshots side max_shares osz results)
  show ?case
  proof (cases "osz \<le> max_shares \<and> \<not> osz + 10 > INT_MAX")
    case True
    then have a: "osz \<le> max_shares" and b: "\<not> osz + 10 > INT_MAX" by auto
    from "1.IH" [OF a refl b "1.prems"] a b show ?thesis
      apply (subst size_loop.simps)
      apply (subst (2) size_loop.simps)
      apply (simp add: Let_def collect_impacts_not_buy [OF "1.prems"])
      done
  next
    case False
    then show ?thesis
      apply (subst size_loop.simps)
      apply (subst (2) size_loop.simps)
      apply (auto simp: Let_def)
      done
  qed
qed

section \<open>The row loop\<close>

lemma parse_price_effect:
  "parse_price stod tokens col l = Some l' \<Longrightarrow>
   size_sh l' = size_sh l \<and> (tokens ! col = [] \<longrightarrow> price l' = price l)"
  by (auto simp: parse_price_def split: if_splits option.splits)

lemma parse_size_effect:
  "parse_size stoi tokens col l = Some l' \<Longrightarrow>
   price l' = price l \<and> (tokens ! col = [] \<longrightarrow> size_sh l' = size_sh l)"
  by (auto simp: parse_size_def split: if_splits option.splits)

lemma parse_level_Some:
  assumes "parse_level stod stoi tokens i st = Some st'"
  obtains b a where "st' = ((fst st)[i := b], (snd st)[i := a])"
    and "tokens ! (13 + 6 * i) = [] \<longrightarrow> price b = price (fst st ! i)"
    and "tokens ! (15 + 6 * i) = [] \<longrightarrow> size_sh b = size_sh (fst st ! i)"
    and "tokens ! (14 + 6 * i) = [] \<longrightarrow> price a = price (snd st ! i)"
    and "tokens ! (16 + 6 * i) = [] \<longrightarrow> size_sh a = size_sh (snd st ! i)"
proof -
  from assms obtain b1 b2 a1 a2 where
    b1: "parse_price stod tokens (13 + 6 * i) (fst st ! i) = Some b1" and
    b2: "parse_size stoi tokens (15 + 6 * i) b1 = Some b2" and
    a1: "parse_price stod tokens (14 + 6 * i) (snd st ! i) = Some a1" and
    a2: "parse_size stoi tokens (16 + 6 * i) a1 = Some a2" and
    st': "st' = ((fst st)[i := b2], (snd st)[i := a2])"
    by (auto simp: parse_level_def Let_def split: option.splits)
  from parse_price_effect [OF b1] parse_size_effect [OF b2]
  have "tokens ! (13 + 6 * i) = [] \<longrightarrow> price b2 = price (fst st ! i)"
    and "tokens ! (15 + 6 * i) = [] \<longrightarrow> size_sh b2 = size_sh (fst st ! i)" by auto
  moreover from parse_price_effect [OF a1] parse_size_effect [OF a2]
  have "tokens ! (14 + 6 * i) = [] \<longrightarrow> price a2 = price (snd st ! i)"
    and "tokens ! (16 + 6 * i) = [] \<longrightarrow> size_sh a2 = size_sh (snd st ! i)" by auto
  ultimately show thesis using st' that by blast
qed

lemma parse_level_inv:
  assumes inv: "placeholder_inv tokens st"
    and ok: "parse_level stod stoi tokens i st = Some st'"
  shows "placeholder_inv tokens st'"
proof -
  from ok obtain b a where st': "st' = ((fst st)[i := b], (snd st)[i := a])"
    and pb: "tokens ! (13 + 6 * i) = [] \<longrightarrow> price b = price (fst st ! i)"
    and sb: "tokens ! (15 + 6 * i) = [] \<longrightarrow> size_sh b = size_sh (fst st ! i)"
    and pa: "tokens ! (14 + 6 * i) = [] \<longrightarrow> price a = price (snd st ! i)"
    and sa: "tokens ! (16 + 6 * i) = [] \<longrightarrow> size_sh a = size_sh (snd st ! i)"
    by (rule parse_level_Some)
  from inv have len: "length (fst st) = 10" "length (snd st) = 10"
    by (simp_all add: placeholder_inv_def)
  have "\<And>j. j < 10 \<Longrightarrow>
      (tokens ! (13 + 6 * j) = [] \<longrightarrow> price (fst st' ! j) = 0) \<and>
      (tokens ! (15 + 6 * j) = [] \<longrightarrow> size_sh (fst st' ! j) = 0) \<and>
      (tokens ! (14 + 6 * j) = [] \<longrightarrow> price (snd st' ! j) = 0) \<and>
      (tokens ! (16 + 6 * j) = [] \<longrightarrow> size_sh (snd st' ! j) = 0)"
  proof -
    fix j :: nat
    assume j: "j < 10"
    with inv have old:
      "tokens ! (13 + 6 * j) = [] \<longrightarrow> price (fst st ! j) = 0"
      "tokens ! (15 + 6 * j) = [] \<longrightarrow> size_sh (fst st ! j) = 0"
      "tokens ! (14 + 6 * j) = [] \<longrightarrow> price (snd st ! j) = 0"
      "tokens ! (16 + 6 * j) = [] \<longrightarrow> size_sh (snd st ! j) = 0"
      by (simp_all add: placeholder_inv_def)
    show "(tokens ! (13 + 6 * j) = [] \<longrightarrow> price (fst st' ! j) = 0) \<and>
      (tokens ! (15 + 6 * j) = [] \<longrightarrow> size_sh (fst st' ! j) = 0) \<and>
      (tokens ! (14 + 6 * j) = [] \<longrightarrow> price (snd st' ! j) = 0) \<and>
      (tokens ! (16 + 6 * j) = [] \<longrightarrow> size_sh (snd st' ! j) = 0)"
    proof (cases "j = i")
      case True
      with j len old pb sb pa sa show ?thesis by (simp add: st')
    next
      case False
      with old show ?thesis by (simp add: st')
    qed
  qed
  with len show ?thesis by (simp add: placeholder_inv_def st')
qed

lemma parse_levels_inv:
  "placeholder_inv tokens st \<Longrightarrow> parse_levels stod stoi tokens idxs st = Some st' \<Longrightarrow>
   placeholder_inv tokens st'"
proof (induction idxs arbitrary: st)
  case Nil
  then show ?case by simp
next
  case (Cons i idxs)
  from Cons.prems(2) obtain st1 where
    a: "parse_level stod stoi tokens i st = Some st1" and
    b: "parse_levels stod stoi tokens idxs st1 = Some st'"
    by (auto split: option.splits)
  from parse_level_inv [OF Cons.prems(1) a] have "placeholder_inv tokens st1" .
  from Cons.IH [OF this b] show ?case .
qed

lemma placeholder_inv_initial:
  "placeholder_inv tokens (replicate 10 default_level, replicate 10 default_level)"
  by (simp add: placeholder_inv_def default_level_def)

section \<open>Binary64 rounding\<close>

lemma expo_bounds: "0 < x \<Longrightarrow> 2 powi expo x \<le> x \<and> x < 2 powi (expo x + 1)"
proof (induction x rule: expo.induct)
  case (1 x)
  show ?case
  proof (cases "2 \<le> x")
    case True
    with "1.prems" have "0 < x / 2" by simp
    from "1.IH"(1) [OF True this]
    have ih: "2 powi expo (x / 2) \<le> x / 2" "x / 2 < 2 powi (expo (x / 2) + 1)" by auto
    have e: "expo x = expo (x / 2) + 1" using True by (subst expo.simps) simp
    from ih show ?thesis
      unfolding e by (simp add: power_int_add field_simps)
  next
    case False
    show ?thesis
    proof (cases "x < 1")
      case True
      with "1.prems" have c: "0 < x \<and> x < 1" by simp
      with "1.prems" have "0 < 2 * x" by simp
      from "1.IH"(2) [OF False c this]
      have ih: "2 powi expo (2 * x) \<le> 2 * x" "2 * x < 2 powi (expo (2 * x) + 1)" by auto
      have e: "expo x = expo (2 * x) - 1" using False c by (subst expo.simps) simp
      from ih show ?thesis
        unfolding e by (simp add: power_int_add power_int_diff field_simps)
    next
      case b: False
      with False have e: "expo x = 0" by (subst expo.simps) simp
      from b False show ?thesis unfolding e by simp
    qed
  qed
qed

lemma expo_unique:
  assumes "0 < x" and "2 powi e \<le> x" and "x < 2 powi (e + 1)"
  shows "expo x = e"
proof -
  from expo_bounds [OF assms(1)] have a: "2 powi expo x \<le> x" and b: "x < 2 powi (expo x + 1)"
    by auto
  from a assms(3) have "(2::real) powi expo x < 2 powi (e + 1)" by linarith
  then have "expo x < e + 1" by (smt (verit) power_int_increasing)
  moreover from assms(2) b have "(2::real) powi e < 2 powi (expo x + 1)" by linarith
  then have "e < expo x + 1" by (smt (verit) power_int_increasing)
  ultimately show ?thesis by simp
qed

lemma round_even_error: "\<bar>of_int (round_even y) - y\<bar> \<le> 1 / 2"
proof -
  define f where "f = \<lfloor>y\<rfloor>"
  define d where "d = y - of_int f"
  have d: "0 \<le> d" "d < 1" unfolding d_def f_def by linarith+
  have y: "y = of_int f + d" by (simp add: d_def)
  have r: "round_even y = (if d < 1 / 2 then f else if 1 / 2 < d then f + 1
      else if even f then f else f + 1)"
    by (simp add: round_even_def Let_def f_def d_def)
  have "\<bar>of_int (round_even y) - (of_int f + d)\<bar> \<le> 1 / 2"
    unfolding r using d by (auto simp: abs_if)
  then show ?thesis by (simp add: d_def)
qed

lemma round_even_nonneg: "0 \<le> y \<Longrightarrow> 0 \<le> round_even y"
  by (auto simp: round_even_def Let_def)

lemma b64_nonneg: "0 \<le> x \<Longrightarrow> 0 \<le> b64 x"
  by (auto simp: b64_def Let_def round_even_nonneg sgn_if)

lemma b64_neg: "b64 (- x) = - b64 x"
  by (simp add: b64_def Let_def sgn_if)

lemma b64_rel_error:
  assumes x: "1 / 2 ^ 1022 \<le> x"
  shows "\<bar>b64 x - x\<bar> \<le> x / 2 ^ 53"
proof -
  from x have pos: "0 < x"
    by (meson divide_pos_pos less_le_trans zero_less_numeral zero_less_one zero_less_power)
  from expo_bounds [OF pos] have lo: "2 powi expo x \<le> x" and up: "x < 2 powi (expo x + 1)"
    by auto
  have "(2::real) powi (- 1022) \<le> x" using x by (simp add: power_int_minus field_simps)
  with up have "(2::real) powi (- 1022) < 2 powi (expo x + 1)" by simp
  then have "- 1022 < expo x + 1"
    by (smt (verit) power_int_increasing)
  then have e: "max (expo x - 52) (- 1074) = expo x - 52" by simp
  let ?e = "expo x - 52"
  let ?m = "round_even (x / 2 powi ?e)"
  have b: "b64 x = of_int ?m * 2 powi ?e"
    using pos e by (simp add: b64_def Let_def)
  have p: "(0::real) < 2 powi ?e" by simp
  have "of_int ?m * 2 powi ?e - x = (of_int ?m - x / 2 powi ?e) * 2 powi ?e"
    using p by (simp add: left_diff_distrib)
  then have "\<bar>b64 x - x\<bar> = \<bar>of_int ?m - x / 2 powi ?e\<bar> * 2 powi ?e"
    unfolding b using p by (simp add: abs_mult)
  also have "\<dots> \<le> 1 / 2 * 2 powi ?e"
    using round_even_error [of "x / 2 powi ?e"] p by (intro mult_right_mono) simp_all
  also have "\<dots> = 2 powi expo x / 2 ^ 53"
    by (simp add: power_int_diff)
  also have "\<dots> \<le> x / 2 ^ 53"
    using lo by (simp add: divide_right_mono)
  finally show ?thesis .
qed

lemma u53_bounds: "0 < u53" "u53 < 1" "0 < 1 - u53" "1 - u53 \<le> 1" "1 \<le> 1 + u53" "1 / 2 \<le> 1 - u53"
  by (simp_all add: u53_def)

lemma b64_op_Inr: "b64_op x = Inr y \<Longrightarrow> y = b64 x"
  by (simp add: b64_op_def split: if_splits)

lemma b64_lower:
  assumes "1 / 2 ^ 1022 \<le> x"
  shows "x * (1 - u53) \<le> b64 x"
proof -
  from b64_rel_error [OF assms] have "x - b64 x \<le> x / 2 ^ 53" by linarith
  then show ?thesis by (simp add: u53_def algebra_simps)
qed

lemma b64_upper:
  assumes "1 / 2 ^ 1022 \<le> x"
  shows "b64 x \<le> x * (1 + u53)"
proof -
  from b64_rel_error [OF assms] have "b64 x - x \<le> x / 2 ^ 53" by linarith
  then show ?thesis by (simp add: u53_def algebra_simps)
qed

lemma b64_op_finite:
  assumes lo: "1 / 2 ^ 1022 \<le> x" and hi: "x \<le> 2 ^ 1023"
  shows "b64_op x = Inr (b64 x)"
proof -
  from lo have "0 \<le> x" by (meson divide_nonneg_nonneg order_trans zero_le_numeral zero_le_one zero_le_power)
  then have nn: "0 \<le> b64 x" by (rule b64_nonneg)
  have "b64 x \<le> x * (1 + u53)" using lo by (rule b64_upper)
  also have "\<dots> \<le> 2 ^ 1023 * (1 + u53)"
    using hi u53_bounds by (intro mult_right_mono) simp_all
  also have "\<dots> \<le> b64_max"
    by (simp add: b64_max_def u53_def)
  finally show ?thesis using nn by (simp add: b64_op_def)
qed

lemma b64_normal:
  assumes "0 < x" and "2 powi e \<le> x" and "x < 2 powi (e + 1)" and "- 1022 \<le> e"
  shows "b64 x = of_int (round_even (x / 2 powi (e - 52))) * 2 powi (e - 52)"
  using assms expo_unique [OF assms(1,2,3)] by (simp add: b64_def Let_def)

lemma b64_op_value: "b64 x = y \<Longrightarrow> \<bar>y\<bar> \<le> 2 ^ 64 \<Longrightarrow> b64_op x = Inr y"
  by (simp add: b64_op_def b64_max_def)

lemma numeric_slack:
  "(1 + u53) ^ 20 \<le> 2" "1 / 2 \<le> (1 - u53) ^ 20"
  "1 - 1 / 2 ^ 48 \<le> (1 - u53) ^ 21" "(1 + u53) ^ 21 \<le> 1 + 1 / 2 ^ 48"
  by (simp_all add: u53_def power_divide)

text \<open>
  The values of the operations that occur in the sample books.
\<close>

lemma b64_at_0: "b64_op 505 = Inr 505"
  by (rule b64_op_value, subst b64_normal [of _ "8"]) (simp_all add: round_even_def)

lemma b64_at_1: "b64_op 510 = Inr 510"
  by (rule b64_op_value, subst b64_normal [of _ "8"]) (simp_all add: round_even_def)

lemma b64_at_2: "b64_op 1015 = Inr 1015"
  by (rule b64_op_value, subst b64_normal [of _ "9"]) (simp_all add: round_even_def)

lemma b64_at_3: "b64_op 500 = Inr 500"
  by (rule b64_op_value, subst b64_normal [of _ "8"]) (simp_all add: round_even_def)

lemma b64_at_4: "b64_op 1005 = Inr 1005"
  by (rule b64_op_value, subst b64_normal [of _ "9"]) (simp_all add: round_even_def)

lemma b64_at_5: "b64_op 495 = Inr 495"
  by (rule b64_op_value, subst b64_normal [of _ "8"]) (simp_all add: round_even_def)

lemma b64_at_6: "b64_op 490 = Inr 490"
  by (rule b64_op_value, subst b64_normal [of _ "8"]) (simp_all add: round_even_def)

lemma b64_at_7: "b64_op 985 = Inr 985"
  by (rule b64_op_value, subst b64_normal [of _ "9"]) (simp_all add: round_even_def)

lemma b64_at_8: "b64_op 200 = Inr 200"
  by (rule b64_op_value, subst b64_normal [of _ "7"]) (simp_all add: round_even_def)

lemma b64_at_9: "b64_op 300 = Inr 300"
  by (rule b64_op_value, subst b64_normal [of _ "8"]) (simp_all add: round_even_def)

lemma b64_at_10: "b64_op 100 = Inr 100"
  by (rule b64_op_value, subst b64_normal [of _ "6"]) (simp_all add: round_even_def)

lemma b64_at_11: "b64_op 150 = Inr 150"
  by (rule b64_op_value, subst b64_normal [of _ "7"]) (simp_all add: round_even_def)

lemma b64_at_12: "b64_op (203 / 2) = Inr (203 / 2)"
  by (rule b64_op_value, subst b64_normal [of _ "6"]) (simp_all add: round_even_def)

lemma b64_at_13: "b64_op (197 / 2) = Inr (197 / 2)"
  by (rule b64_op_value, subst b64_normal [of _ "6"]) (simp_all add: round_even_def)

lemma b64_at_14: "b64_op (201 / 2) = Inr (201 / 2)"
  by (rule b64_op_value, subst b64_normal [of _ "6"]) (simp_all add: round_even_def)

lemma b64_at_15: "b64_op (3 / 2) = Inr (3 / 2)"
  by (rule b64_op_value, subst b64_normal [of _ "0"]) (simp_all add: round_even_def)

lemma b64_at_16: "b64_op (3 / 200) = Inr (1080863910568919 / 72057594037927936)"
  by (rule b64_op_value, subst b64_normal [of _ "- 7"]) (simp_all add: round_even_def)

lemma b64_at_17: "b64_op (- (99 / 2)) = Inr (- (99 / 2))"
  by (rule b64_op_value, subst b64_neg, subst b64_normal [of _ "5"]) (simp_all add: round_even_def)

lemma b64_at_18: "b64_op (- (33 / 100)) = Inr (- (5944751508129055 / 18014398509481984))"
  by (rule b64_op_value, subst b64_neg, subst b64_normal [of _ "- 2"]) (simp_all add: round_even_def)

lemma b64_at_19: "b64_op (39631676720860365 / 36028797018963968) = Inr (2476979795053773 / 2251799813685248)"
  by (rule b64_op_value, subst b64_normal [of _ "0"]) (simp_all add: round_even_def)

lemma b64_at_20: "b64_op (2476979795053773 / 2251799813685248) = Inr (2476979795053773 / 2251799813685248)"
  by (rule b64_op_value, subst b64_normal [of _ "0"]) (simp_all add: round_even_def)

lemma b64_at_21: "b64_op (2476979795053773 / 22517998136852480) = Inr (3963167672086037 / 36028797018963968)"
  by (rule b64_op_value, subst b64_normal [of _ "- 4"]) (simp_all add: round_even_def)

lemma b64_at_22: "b64_op (7926335344172073 / 36028797018963968) = Inr (7926335344172073 / 36028797018963968)"
  by (rule b64_op_value, subst b64_normal [of _ "- 3"]) (simp_all add: round_even_def)

lemma b64_at_23: "b64_op (7926335344172073 / 72057594037927936) = Inr (7926335344172073 / 72057594037927936)"
  by (rule b64_op_value, subst b64_normal [of _ "- 4"]) (simp_all add: round_even_def)

lemma b64_at_24: "b64_op (- (1 / 72057594037927936)) = Inr (- (1 / 72057594037927936))"
  by (rule b64_op_value, subst b64_neg, subst b64_normal [of _ "- 56"]) (simp_all add: round_even_def)

lemma b64_at_25: "b64_op (- (1 / 7926335344172073)) = Inr (- (5117726849284655 / 40564819207303340847894502572032))"
  by (rule b64_op_value, subst b64_neg, subst b64_normal [of _ "- 53"]) (simp_all add: round_even_def)

lemmas b64_sample_values =
  b64_at_0 b64_at_1 b64_at_2 b64_at_3 b64_at_4 b64_at_5
  b64_at_6 b64_at_7 b64_at_8 b64_at_9 b64_at_10 b64_at_11
  b64_at_12 b64_at_13 b64_at_14 b64_at_15 b64_at_16 b64_at_17
  b64_at_18 b64_at_19 b64_at_20 b64_at_21 b64_at_22 b64_at_23
  b64_at_24 b64_at_25

lemma b64_tenth: "b64 (1 / 10) = 3602879701896397 / 2 ^ 55"
  by (subst b64_normal [of _ "- 4"]) (simp_all add: round_even_def)

lemma b64_pow2_1026: "b64 (10 * 2 ^ 1023) = 10 * 2 ^ 1023"
  by (subst b64_normal [of _ 1026]) (simp_all add: round_even_def)

lemmas fp_defs = snapshot_impact_fp_def getMidPrice_fp_def avg_price_fp_def simulate_fp_def
  impact_value_fp_def

lemmas sample_books = two_level_book_def rounding_book_def crossed_book_def locked_book_def

section \<open>The walk with rounding\<close>

text \<open>
  With the rounding left out, the second embedding is the first.
\<close>

lemma walk_fp_exact: "walk_levels_fp Inr ls st = Inr (walk_levels ls st)"
proof (induction ls arbitrary: st)
  case Nil
  show ?case by simp
next
  case (Cons l ls)
  obtain c n r where st: "st = (c, n, r)" by (cases st) auto
  show ?case unfolding st by (simp add: Let_def Cons.IH)
qed

lemma simulate_fp_walk:
  "simulate_fp rnd side q s = walk_levels_fp rnd (consumption_side side s) (0, 0, q)"
  by (simp add: simulate_fp_def consumption_side_def)

lemma getMidPrice_fp_exact: "getMidPrice_fp Inr s = Inr (getMidPrice s)"
  by (simp add: getMidPrice_fp_def getMidPrice_def)

lemma impact_value_fp_exact: "impact_value_fp Inr side avg m = Inr (impact_value side avg m)"
  by (simp add: impact_value_fp_def impact_value_def)

lemma avg_price_fp_exact:
  "avg_price_fp Inr side q s =
     Inr (if 0 < filled side q s then Some (avg_price side q s) else None)"
  by (simp add: avg_price_fp_def simulate_fp_walk walk_fp_exact filled_def avg_price_def
      simulate_walk split: prod.splits)

lemma snapshot_impact_fp_exact:
  "snapshot_impact_fp Inr side q s = Inr (snapshot_impact side q s)"
  by (simp add: snapshot_impact_fp_def getMidPrice_fp_exact avg_price_fp_exact
      impact_value_fp_exact snapshot_impact_def Let_def)

text \<open>
  The rounding does not touch the integers of the walk. Over prices in the admitted range
  every operation is finite, and each level adds two roundings to the accumulated cost.
\<close>

lemma walk_fp_ints:
  "walk_levels_fp rnd ls (c, n, r) = Inr (c', n', r') \<Longrightarrow>
   snd (walk_levels ls (c2, n, r)) = (n', r')"
proof (induction ls arbitrary: c c2 n r)
  case Nil
  then show ?case by simp
next
  case (Cons l ls)
  show ?case
  proof (cases "r \<le> 0 \<or> price l \<le> 0 \<or> size_sh l \<le> 0")
    case True
    with Cons.prems show ?thesis by auto
  next
    case False
    with Cons.prems obtain x c1 where
      "walk_levels_fp rnd ls (c1, n + min r (size_sh l), r - min r (size_sh l)) = Inr (c', n', r')"
      by (auto simp: Let_def split: sum.splits)
    from Cons.IH [OF this] False show ?thesis by (simp add: Let_def)
  qed
qed

lemma simulate_fp_shares:
  "simulate_fp rnd side q s = Inr (c, n, r) \<Longrightarrow> n = filled side q s"
  using walk_fp_ints [of rnd "consumption_side side s" 0 0 q c n r 0]
  by (simp add: simulate_fp_walk filled_def simulate_walk)

lemma walk_fp_upper:
  assumes rng: "\<forall>l \<in> set (consumed r ls). price_min \<le> price l \<and> price l \<le> hi"
    and hi: "hi \<le> price_max"
    and c: "0 \<le> c" "c \<le> hi * real_of_int n * B"
    and n: "0 \<le> n" "n + r \<le> 2 ^ 31"
    and B: "1 \<le> B" "B * (1 + u53) ^ (2 * length (consumed r ls)) \<le> 2"
  shows "\<exists>c' n' r'. walk_levels_fp b64_op ls (c, n, r) = Inr (c', n', r') \<and> 0 \<le> c' \<and>
           c' \<le> hi * real_of_int n' * B * (1 + u53) ^ (2 * length (consumed r ls))"
  using assms
proof (induction ls arbitrary: c n r B)
  case Nil
  then show ?case by simp
next
  case (Cons l ls)
  show ?case
  proof (cases "r \<le> 0 \<or> price l \<le> 0 \<or> size_sh l \<le> 0")
    case True
    with Cons.prems show ?thesis by simp
  next
    case False
    define t where "t = min r (size_sh l)"
    define g where "g = 1 + u53"
    define k where "k = length (consumed (r - t) ls)"
    have g: "1 \<le> g" "0 < g" using u53_bounds by (simp_all add: g_def)
    from False have t: "1 \<le> t" "t \<le> r" by (simp_all add: t_def)
    have cons: "consumed r (l # ls) = l # consumed (r - t) ls"
      using False by (simp add: t_def)
    note consumed.simps(2) [simp del]
    from Cons.prems(1) have p: "price_min \<le> price l" "price l \<le> hi"
      and rest: "\<forall>x \<in> set (consumed (r - t) ls). price_min \<le> price x \<and> price x \<le> hi"
      unfolding cons by simp_all
    have pm: "0 < price_min" by (simp add: price_min_def)
    from p pm have hipos: "0 < hi" by linarith
    have ppos: "0 < price l" using False by simp
    from Cons.prems(8) have Bk: "B * g ^ (2 * Suc k) \<le> 2"
      by (simp add: cons g_def k_def)
    have gk: "1 \<le> g ^ (2 * k)" using g by simp
    have Bg2: "B * g\<^sup>2 \<le> 2"
    proof -
      have "B * g\<^sup>2 * 1 \<le> B * g\<^sup>2 * g ^ (2 * k)"
        using gk Cons.prems(7) g by (intro mult_left_mono) simp_all
      also have "\<dots> = B * g ^ (2 * Suc k)" by (simp add: power_add power2_eq_square)
      finally show ?thesis using Bk by simp
    qed
    have Bg: "B * g \<le> 2"
    proof -
      have "B * g * 1 \<le> B * g * g" using g Cons.prems(7) by (intro mult_left_mono) simp_all
      with Bg2 show ?thesis by (simp add: power2_eq_square)
    qed
    from Cons.prems(5,6) t have r31: "real_of_int r \<le> 2 ^ 31" "real_of_int (n + t) \<le> 2 ^ 31"
    proof -
      from Cons.prems(5,6) have "r \<le> 2 ^ 31" by simp
      then show "real_of_int r \<le> 2 ^ 31" by (metis of_int_le_iff of_int_numeral of_int_power)
      from Cons.prems(6) t have "n + t \<le> 2 ^ 31" by simp
      then show "real_of_int (n + t) \<le> 2 ^ 31" by (metis of_int_le_iff of_int_numeral of_int_power)
    qed
    let ?tp = "real_of_int t * price l"
    have t1: "1 \<le> real_of_int t" "0 < real_of_int t" using t by simp_all
    have tp_lo: "price l \<le> ?tp"
      using t1 ppos by (simp add: mult_le_cancel_right1)
    have tp_hi: "?tp \<le> real_of_int t * hi"
      using p t1 by (intro mult_left_mono) simp_all
    have "real_of_int t * hi \<le> 2 ^ 31 * price_max"
      using t r31 hi hipos t1 by (intro mult_mono) simp_all
    also have "\<dots> \<le> 2 ^ 1023" by (simp add: price_max_def)
    finally have "real_of_int t * hi \<le> 2 ^ 1023" .
    with tp_hi have tp_max: "?tp \<le> 2 ^ 1023" by linarith
    have "(1::real) / 2 ^ 1022 \<le> price_min" by (simp add: price_min_def)
    with tp_lo p have tp_min: "1 / 2 ^ 1022 \<le> ?tp" by linarith
    define x where "x = b64 ?tp"
    have opx: "b64_op ?tp = Inr x" unfolding x_def using tp_min tp_max by (rule b64_op_finite)
    have x_hi: "x \<le> real_of_int t * hi * g"
    proof -
      have "x \<le> ?tp * g" unfolding x_def g_def using tp_min by (rule b64_upper)
      also have "\<dots> \<le> real_of_int t * hi * g" using tp_hi g by (intro mult_right_mono) simp_all
      finally show ?thesis .
    qed
    have x_lo: "price_min / 2 \<le> x"
    proof -
      from tp_lo p have "price_min \<le> ?tp" by linarith
      then have "price_min * (1 / 2) \<le> ?tp * (1 - u53)"
        using u53_bounds pm by (intro mult_mono) simp_all
      also have "\<dots> \<le> x" unfolding x_def using tp_min by (rule b64_lower)
      finally show ?thesis by simp
    qed
    have pm2: "(1::real) / 2 ^ 1022 \<le> price_min / 2" by (simp add: price_min_def)
    let ?s = "c + x"
    have s_min: "1 / 2 ^ 1022 \<le> ?s" using x_lo pm2 Cons.prems(3) by linarith
    have s_hi: "?s \<le> hi * real_of_int (n + t) * (B * g)"
    proof -
      have a: "hi * real_of_int n * B * 1 \<le> hi * real_of_int n * B * g"
        using hipos Cons.prems(5,7) g by (intro mult_left_mono) simp_all
      have b: "real_of_int t * hi * g * 1 \<le> real_of_int t * hi * g * B"
        using hipos t1 g Cons.prems(7) by (intro mult_left_mono) simp_all
      from a b Cons.prems(4) x_hi show ?thesis by (simp add: algebra_simps)
    qed
    have "hi * real_of_int (n + t) * (B * g) \<le> price_max * 2 ^ 31 * 2"
      using hi hipos r31 Cons.prems(5) t Bg Cons.prems(7) g
      by (intro mult_mono) simp_all
    also have "\<dots> \<le> 2 ^ 1023" by (simp add: price_max_def)
    finally have "hi * real_of_int (n + t) * (B * g) \<le> 2 ^ 1023" .
    with s_hi have s_max: "?s \<le> 2 ^ 1023" by linarith
    define c1 where "c1 = b64 ?s"
    have opc: "b64_op ?s = Inr c1" unfolding c1_def using s_min s_max by (rule b64_op_finite)
    have c1_nn: "0 \<le> c1" unfolding c1_def using Cons.prems(3) x_lo pm by (intro b64_nonneg) simp
    have c1_hi: "c1 \<le> hi * real_of_int (n + t) * (B * g\<^sup>2)"
    proof -
      have "c1 \<le> ?s * g" unfolding c1_def g_def using s_min by (rule b64_upper)
      also have "\<dots> \<le> hi * real_of_int (n + t) * (B * g) * g"
        using s_hi g by (intro mult_right_mono) simp_all
      finally show ?thesis by (simp add: power2_eq_square algebra_simps)
    qed
    have w: "walk_levels_fp b64_op (l # ls) (c, n, r) =
        walk_levels_fp b64_op ls (c1, n + t, r - t)"
      using False opx opc by (simp add: Let_def t_def [symmetric])
    have B1: "1 \<le> B * g\<^sup>2"
    proof -
      have "1 \<le> g\<^sup>2" using g by simp
      then have "1 * 1 \<le> B * g\<^sup>2" using Cons.prems(7) by (intro mult_mono) simp_all
      then show ?thesis by simp
    qed
    have B2: "B * g\<^sup>2 * (1 + u53) ^ (2 * length (consumed (r - t) ls)) \<le> 2"
      using Bk by (simp add: g_def k_def power_add power2_eq_square algebra_simps)
    have n': "0 \<le> n + t" "n + t + (r - t) \<le> 2 ^ 31" using Cons.prems(5,6) t by simp_all
    from Cons.IH [OF rest hi c1_nn c1_hi n' B1 B2]
    obtain c' n' r' where res: "walk_levels_fp b64_op ls (c1, n + t, r - t) = Inr (c', n', r')"
      and nn: "0 \<le> c'"
      and up: "c' \<le> hi * real_of_int n' * (B * g\<^sup>2) * (1 + u53) ^ (2 * length (consumed (r - t) ls))"
      by blast
    have "hi * real_of_int n' * (B * g\<^sup>2) * (1 + u53) ^ (2 * length (consumed (r - t) ls)) =
        hi * real_of_int n' * B * (1 + u53) ^ (2 * length (consumed r (l # ls)))"
      by (simp add: cons g_def power_add power2_eq_square algebra_simps)
    with res nn up w show ?thesis by simp
  qed
qed

lemma walk_fp_lower:
  assumes res: "walk_levels_fp b64_op ls (c, n, r) = Inr (c', n', r')"
    and rng: "\<forall>l \<in> set (consumed r ls). lo \<le> price l"
    and lo: "price_min \<le> lo"
    and c: "lo * real_of_int n * B \<le> c"
    and n: "0 \<le> n"
    and B: "0 < B" "B \<le> 1"
  shows "lo * real_of_int n' * B * (1 - u53) ^ (2 * length (consumed r ls)) \<le> c'"
  using assms
proof (induction ls arbitrary: c n r B)
  case Nil
  then show ?case by simp
next
  case (Cons l ls)
  show ?case
  proof (cases "r \<le> 0 \<or> price l \<le> 0 \<or> size_sh l \<le> 0")
    case True
    with Cons.prems show ?thesis by auto
  next
    case False
    define t where "t = min r (size_sh l)"
    define d where "d = 1 - u53"
    have d: "0 < d" "d \<le> 1" "1 / 2 \<le> d" using u53_bounds by (simp_all add: d_def)
    from False have t: "1 \<le> t" "t \<le> r" by (simp_all add: t_def)
    have cons: "consumed r (l # ls) = l # consumed (r - t) ls"
      using False by (simp add: t_def)
    note consumed.simps(2) [simp del]
    from Cons.prems(2) have p: "lo \<le> price l"
      and rest: "\<forall>x \<in> set (consumed (r - t) ls). lo \<le> price x"
      unfolding cons by simp_all
    have pm: "0 < price_min" by (simp add: price_min_def)
    with Cons.prems(3) have lopos: "0 < lo" by linarith
    let ?tp = "real_of_int t * price l"
    from Cons.prems(1) False obtain x c1 where
      opx: "b64_op ?tp = Inr x" and opc: "b64_op (c + x) = Inr c1" and
      w: "walk_levels_fp b64_op ls (c1, n + t, r - t) = Inr (c', n', r')"
      by (auto simp: Let_def t_def split: sum.splits)
    have x: "x = b64 ?tp" using opx by (rule b64_op_Inr)
    have c1: "c1 = b64 (c + x)" using opc by (rule b64_op_Inr)
    have t1: "1 \<le> real_of_int t" "0 < real_of_int t" using t by simp_all
    have tp_lo: "real_of_int t * lo \<le> ?tp"
      using p t1 by (intro mult_left_mono) simp_all
    have "1 * lo \<le> real_of_int t * lo" using t1 lopos by (intro mult_right_mono) simp_all
    with tp_lo Cons.prems(3) have tp_pm: "price_min \<le> ?tp" by simp
    have "(1::real) / 2 ^ 1022 \<le> price_min" by (simp add: price_min_def)
    with tp_pm have tp_min: "1 / 2 ^ 1022 \<le> ?tp" by linarith
    have x_lo: "real_of_int t * lo * d \<le> x"
    proof -
      have "real_of_int t * lo * d \<le> ?tp * d" using tp_lo d by (intro mult_right_mono) simp_all
      also have "\<dots> \<le> x" unfolding x d_def using tp_min by (rule b64_lower)
      finally show ?thesis .
    qed
    have x_pm: "price_min / 2 \<le> x"
    proof -
      have "price_min * (1 / 2) \<le> ?tp * d" using tp_pm d pm by (intro mult_mono) simp_all
      also have "\<dots> \<le> x" unfolding x d_def using tp_min by (rule b64_lower)
      finally show ?thesis by simp
    qed
    have cnn: "0 \<le> c"
    proof -
      have "0 \<le> lo * real_of_int n * B" using lopos Cons.prems(5,6) by simp
      with Cons.prems(4) show ?thesis by linarith
    qed
    have pm2: "(1::real) / 2 ^ 1022 \<le> price_min / 2" by (simp add: price_min_def)
    have s_min: "1 / 2 ^ 1022 \<le> c + x" using x_pm pm2 cnn by linarith
    have s_lo: "lo * real_of_int (n + t) * (B * d) \<le> c + x"
    proof -
      have a: "lo * real_of_int n * B * d \<le> lo * real_of_int n * B * 1"
        using lopos Cons.prems(5,6) d by (intro mult_left_mono) simp_all
      have b: "real_of_int t * lo * d * B \<le> real_of_int t * lo * d * 1"
        using lopos t1 d Cons.prems(7) by (intro mult_left_mono) simp_all
      from a b Cons.prems(4) x_lo show ?thesis by (simp add: algebra_simps)
    qed
    have c1_lo: "lo * real_of_int (n + t) * (B * d\<^sup>2) \<le> c1"
    proof -
      have "lo * real_of_int (n + t) * (B * d) * d \<le> (c + x) * d"
        using s_lo d by (intro mult_right_mono) simp_all
      also have "\<dots> \<le> c1" unfolding c1 d_def using s_min by (rule b64_lower)
      finally show ?thesis by (simp add: power2_eq_square algebra_simps)
    qed
    have B1: "0 < B * d\<^sup>2" using Cons.prems(6) d by simp
    have B2: "B * d\<^sup>2 \<le> 1"
    proof -
      have "d\<^sup>2 \<le> 1" using d by (simp add: power_le_one)
      then have "B * d\<^sup>2 \<le> 1 * 1" using Cons.prems(6,7) by (intro mult_mono) simp_all
      then show ?thesis by simp
    qed
    have n': "0 \<le> n + t" using Cons.prems(5) t by simp
    from Cons.IH [OF w rest Cons.prems(3) c1_lo n' B1 B2]
    have "lo * real_of_int n' * (B * d\<^sup>2) * (1 - u53) ^ (2 * length (consumed (r - t) ls)) \<le> c'" .
    moreover have "lo * real_of_int n' * (B * d\<^sup>2) * (1 - u53) ^ (2 * length (consumed (r - t) ls)) =
        lo * real_of_int n' * B * (1 - u53) ^ (2 * length (consumed r (l # ls)))"
      by (simp add: cons d_def power_add power2_eq_square algebra_simps)
    ultimately show ?thesis by simp
  qed
qed

lemma avg_price_b64_bounds:
  assumes f: "0 < filled side q s" and q: "q \<le> INT_MAX"
    and k: "length (consumed q (consumption_side side s)) \<le> 10"
    and rng: "\<forall>l \<in> set (consumed q (consumption_side side s)). lo \<le> price l \<and> price l \<le> hi"
    and lo: "price_min \<le> lo" and hi: "hi \<le> price_max"
  shows "\<exists>v. avg_price_fp b64_op side q s = Inr (Some v) \<and>
           lo * (1 - 1 / 2 ^ 48) \<le> v \<and> v \<le> hi * (1 + 1 / 2 ^ 48)"
proof -
  let ?ls = "consumption_side side s"
  let ?k = "length (consumed q ?ls)"
  define g where "g = 1 + u53"
  define d where "d = 1 - u53"
  have g: "1 \<le> g" "0 < g" and d: "0 < d" "d \<le> 1" "0 \<le> d"
    using u53_bounds by (simp_all add: g_def d_def)
  have pm: "0 < price_min" by (simp add: price_min_def)
  with lo have lopos: "0 < lo" by linarith
  have ne: "consumed q ?ls \<noteq> []"
  proof -
    obtain c n r where w: "walk_levels ?ls (0, 0, q) = (c, n, r)"
      by (cases "walk_levels ?ls (0, 0, q)") auto
    with f have "0 < n" by (simp add: filled_def simulate_walk)
    from walk_levels_consumed_nonempty [OF w this] show ?thesis .
  qed
  then obtain l0 where "l0 \<in> set (consumed q ?ls)" by (cases "consumed q ?ls") auto
  with rng have "lo \<le> hi" by fastforce
  with lopos have hipos: "0 < hi" by linarith
  have g20: "g ^ (2 * ?k) \<le> 2"
  proof -
    have "g ^ (2 * ?k) \<le> g ^ 20" using k g by (intro power_increasing) simp_all
    with numeric_slack(1) show ?thesis by (simp add: g_def)
  qed
  have d20: "1 / 2 \<le> d ^ (2 * ?k)"
  proof -
    have "d ^ 20 \<le> d ^ (2 * ?k)" using k d by (intro power_decreasing) simp_all
    with numeric_slack(2) show ?thesis by (simp add: d_def)
  qed
  have rng_up: "\<forall>l \<in> set (consumed q ?ls). price_min \<le> price l \<and> price l \<le> hi"
    using rng lo by fastforce
  have rng_lo: "\<forall>l \<in> set (consumed q ?ls). lo \<le> price l" using rng by simp
  have q31: "0 + q \<le> 2 ^ 31" using q by (simp add: INT_MAX_def)
  have "\<exists>c' n' r'. walk_levels_fp b64_op ?ls (0, 0, q) = Inr (c', n', r') \<and> 0 \<le> c' \<and>
      c' \<le> hi * real_of_int n' * 1 * (1 + u53) ^ (2 * ?k)"
    using g20 q31 by (intro walk_fp_upper [OF rng_up hi]) (simp_all add: g_def)
  then obtain c n r where w: "walk_levels_fp b64_op ?ls (0, 0, q) = Inr (c, n, r)"
    and cnn: "0 \<le> c" and cup: "c \<le> hi * real_of_int n * g ^ (2 * ?k)"
    by (auto simp: g_def)
  from w have sim: "simulate_fp b64_op side q s = Inr (c, n, r)" by (simp add: simulate_fp_walk)
  from simulate_fp_shares [OF sim] f have n: "0 < n" by simp
  then have rn: "0 < real_of_int n" by simp
  have clo: "lo * real_of_int n * d ^ (2 * ?k) \<le> c"
    using walk_fp_lower [OF w rng_lo lo, of 1] by (simp add: d_def)
  let ?x = "c / real_of_int n"
  have x_lo: "lo * d ^ (2 * ?k) \<le> ?x"
    using clo rn by (simp add: pos_le_divide_eq algebra_simps)
  have x_hi: "?x \<le> hi * g ^ (2 * ?k)"
    using cup rn by (simp add: pos_divide_le_eq algebra_simps)
  have "price_min * (1 / 2) \<le> lo * d ^ (2 * ?k)"
    using lo d20 pm by (intro mult_mono) simp_all
  with x_lo have x_pm: "price_min / 2 \<le> ?x" by linarith
  have "(1::real) / 2 ^ 1022 \<le> price_min / 2" by (simp add: price_min_def)
  with x_pm have x_min: "1 / 2 ^ 1022 \<le> ?x" by linarith
  have "hi * g ^ (2 * ?k) \<le> price_max * 2"
    using hi g20 hipos g by (intro mult_mono) simp_all
  also have "\<dots> \<le> 2 ^ 1023" by (simp add: price_max_def)
  finally have "hi * g ^ (2 * ?k) \<le> 2 ^ 1023" .
  with x_hi have x_max: "?x \<le> 2 ^ 1023" by linarith
  have op: "b64_op ?x = Inr (b64 ?x)" using x_min x_max by (rule b64_op_finite)
  have avg: "avg_price_fp b64_op side q s = Inr (Some (b64 ?x))"
    using sim n op by (simp add: avg_price_fp_def)
  have v_lo: "lo * (1 - 1 / 2 ^ 48) \<le> b64 ?x"
  proof -
    have "d ^ 21 \<le> d ^ (2 * ?k + 1)" using k d by (intro power_decreasing) simp_all
    with numeric_slack(3) have "1 - 1 / 2 ^ 48 \<le> d ^ (2 * ?k + 1)" by (simp add: d_def)
    then have "lo * (1 - 1 / 2 ^ 48) \<le> lo * d ^ (2 * ?k + 1)"
      using lopos by (intro mult_left_mono) simp_all
    also have "\<dots> = lo * d ^ (2 * ?k) * d" by simp
    also have "\<dots> \<le> ?x * d" using x_lo d by (intro mult_right_mono) simp_all
    also have "\<dots> \<le> b64 ?x" unfolding d_def using x_min by (rule b64_lower)
    finally show ?thesis .
  qed
  have v_hi: "b64 ?x \<le> hi * (1 + 1 / 2 ^ 48)"
  proof -
    have "b64 ?x \<le> ?x * g" unfolding g_def using x_min by (rule b64_upper)
    also have "\<dots> \<le> hi * g ^ (2 * ?k) * g" using x_hi g by (intro mult_right_mono) simp_all
    also have "\<dots> = hi * g ^ (2 * ?k + 1)" by simp
    also have "\<dots> \<le> hi * (1 + 1 / 2 ^ 48)"
    proof -
      have "g ^ (2 * ?k + 1) \<le> g ^ 21" using k g by (intro power_increasing) simp_all
      with numeric_slack(4) have "g ^ (2 * ?k + 1) \<le> 1 + 1 / 2 ^ 48" by (simp add: g_def)
      then show ?thesis using hipos by (intro mult_left_mono) simp_all
    qed
    finally show ?thesis .
  qed
  from avg v_lo v_hi show ?thesis by blast
qed




text \<open>
  In exact arithmetic the average price lies between the lowest and the highest consumed
  price.
\<close>

lemma avg_price_exact_within_consumed:
  assumes "0 < filled side q s"
  shows "Min (price ` set (consumed q (consumption_side side s))) \<le> avg_price side q s \<and>
         avg_price side q s \<le> Max (price ` set (consumed q (consumption_side side s)))"
proof (intro conjI)
  let ?P = "price ` set (consumed q (consumption_side side s))"
  have "\<forall>l \<in> set (consumed q (consumption_side side s)). Min ?P \<le> price l"
    by simp
  then show "Min ?P \<le> avg_price side q s"
    by (rule simulate_bounds(2) [OF assms])
  have "\<forall>l \<in> set (consumed q (consumption_side side s)). price l \<le> Max ?P"
    by simp
  then show "avg_price side q s \<le> Max ?P"
    by (rule simulate_bounds(3) [OF assms])
qed

section \<open>The worked example\<close>

text \<open>
  A buy of 8 shares fills 5 at 100.00 and 3 at 100.05: the average price is 100.01875 and
  the impact 0.0001875, that is 1.875 basis points.
\<close>

lemma scenario_buy_8:
  "getMidPrice scenario_book = 100 \<and>
   simulator_result ''buy'' 8 scenario_book = (8, Some (1600.3 / 16)) \<and>
   snapshot_impact ''buy'' 8 scenario_book = Some (1875 / 10000000)"
proof (intro conjI)
  show "getMidPrice scenario_book = 100"
    by (simp add: getMidPrice_def scenario_book_def)
  show "simulator_result ''buy'' 8 scenario_book = (8, Some (1600.3 / 16))"
    by (simp add: simulator_result_def filled_def avg_price_def simulate_def scenario_book_def)
  show "snapshot_impact ''buy'' 8 scenario_book = Some (1875 / 10000000)"
    by (simp add: snapshot_impact_def getMidPrice_def filled_def avg_price_def simulate_def
        impact_value_def scenario_book_def)
qed

section \<open>The claims\<close>

subsection \<open>C1: the execution simulator\<close>

text \<open>
  Claim C1. For every snapshot, side and positive quantity, what the code computes for one
  snapshot (the executed shares and, when positive, \<^verbatim>\<open>total_cost / total_shares\<close>) is the
  result of the simulator of the specification: asks for a buy and bids for a sell, walked
  in stored order with \<open>take = min remaining size\<close>, stopping at \<open>remaining = 0\<close>, at an
  invalid level or at the end of the side.
\<close>

theorem simulator_refines_spec:
  assumes "0 < quantity"
  shows "simulator_result (side_name sd) quantity s = spec_simulate s sd quantity"
proof -
  have ls: "consumption_side (side_name sd) s = spec_levels sd s"
    by (cases sd) (simp_all add: consumption_side_def)
  from assms have "0 \<le> quantity" by simp
  from walk_levels_spec_walk [OF this, of "spec_levels sd s" 0 0]
  have w: "simulate (side_name sd) quantity s =
      (fst (spec_walk quantity (spec_levels sd s)), snd (spec_walk quantity (spec_levels sd s)),
       quantity - snd (spec_walk quantity (spec_levels sd s)))"
    by (simp add: simulate_walk ls)
  have nn: "0 \<le> snd (spec_walk quantity (spec_levels sd s))"
    using filled_nonneg [of "side_name sd" quantity s] by (simp add: filled_def w)
  show ?thesis
    using nn by (auto simp: simulator_result_def spec_simulate_def filled_def avg_price_def w
        split: prod.splits)
qed

theorem simulator_refines_spec_witness:
  "(0::int) < 8 \<and> simulator_result ''buy'' 8 two_level_book = (8, Some (811 / 8)) \<and>
   spec_simulate two_level_book Buy 8 = (8, Some (811 / 8))"
proof -
  have q: "(0::int) < 8" by simp
  have "spec_simulate two_level_book Buy 8 = (8, Some (811 / 8))"
    by (simp add: spec_simulate_def two_level_book_def level_isValid_def)
  with simulator_refines_spec [OF q, of Buy two_level_book] show ?thesis by simp
qed

subsection \<open>C2: the mid-price\<close>

text \<open>
  Claim C2, as the code has it. The mid-price is the mean of the two best prices exactly
  when both sides are non-empty and both best prices are positive, and 0 otherwise; the
  sizes of the best levels are not looked at. A snapshot whose mid-price is 0 is skipped for
  every side and size, and removing it from the collection leaves the curve unchanged.
\<close>

theorem mid_price_by_best_prices:
  "(best_prices_positive s \<longrightarrow>
      getMidPrice s = (price (hd (bids s)) + price (hd (asks s))) / 2 \<and> 0 < getMidPrice s) \<and>
   (\<not> best_prices_positive s \<longrightarrow>
      getMidPrice s = 0 \<and> snapshot_impact side n s = None \<and>
      calculateTemporaryImpact (pre @ s # post) side max_shares =
        calculateTemporaryImpact (pre @ post) side max_shares)"
proof (intro conjI impI)
  assume p: "best_prices_positive s"
  then show "getMidPrice s = (price (hd (bids s)) + price (hd (asks s))) / 2"
    by (simp add: getMidPrice_cases)
  with p show "0 < getMidPrice s"
    by (simp add: best_prices_positive_def)
next
  assume n: "\<not> best_prices_positive s"
  then show z: "getMidPrice s = 0"
    by (simp add: getMidPrice_cases)
  then show "snapshot_impact side n s = None"
    by (simp add: mid_nonpos_skipped)
  from z have "\<And>k. snapshot_impact side k s = None"
    by (simp add: mid_nonpos_skipped)
  then have "\<And>k. collect_impacts side k (pre @ s # post) [] = collect_impacts side k (pre @ post) []"
    by (rule skipped_snapshot_collect)
  then show "calculateTemporaryImpact (pre @ s # post) side max_shares =
        calculateTemporaryImpact (pre @ post) side max_shares"
    unfolding calculateTemporaryImpact_def by (rule size_loop_cong)
qed

theorem mid_price_by_best_prices_witness:
  "best_prices_positive zero_size_bid_book \<and> getMidPrice zero_size_bid_book = 201 / 2 \<and>
   \<not> best_prices_positive no_bid_book \<and> getMidPrice no_bid_book = 0 \<and>
   snapshot_impact ''buy'' 10 no_bid_book = None \<and>
   calculateTemporaryImpact ([two_level_book] @ no_bid_book # []) ''buy'' 20 =
     calculateTemporaryImpact ([two_level_book] @ []) ''buy'' 20"
proof -
  have p: "best_prices_positive zero_size_bid_book"
    by (simp add: best_prices_positive_def zero_size_bid_book_def)
  have n: "\<not> best_prices_positive no_bid_book"
    by (simp add: best_prices_positive_def no_bid_book_def)
  have h: "(price (hd (bids zero_size_bid_book)) + price (hd (asks zero_size_bid_book))) / 2 = 201 / 2"
    by (simp add: zero_size_bid_book_def)
  from mid_price_by_best_prices [of zero_size_bid_book] p h
  have a: "getMidPrice zero_size_bid_book = 201 / 2" by simp
  from mid_price_by_best_prices [of no_bid_book "''buy''" 10 "[two_level_book]" "[]" 20] n
  have b: "getMidPrice no_bid_book = 0 \<and>
   snapshot_impact ''buy'' 10 no_bid_book = None \<and>
   calculateTemporaryImpact ([two_level_book] @ no_bid_book # []) ''buy'' 20 =
     calculateTemporaryImpact ([two_level_book] @ []) ''buy'' 20" by blast
  from p n a b show ?thesis by blast
qed

text \<open>
  A best bid of size 0 is not a valid level, yet the mid-price is 100.5 and the snapshot
  contributes a sample to the buy curve.
\<close>

theorem mid_price_validity_counterexample:
  "\<not> level_isValid (bids zero_size_bid_book ! 0) \<and>
   getMidPrice zero_size_bid_book = 201 / 2 \<and>
   calculateTemporaryImpact [zero_size_bid_book] ''buy'' 10 =
     Inr [\<lparr>order_size = 10, avg_impact = 1 / 201, impact_bps = 10000 / 201\<rparr>]"
proof (intro conjI)
  show "\<not> level_isValid (bids zero_size_bid_book ! 0)"
    by (simp add: level_isValid_def zero_size_bid_book_def)
  show "getMidPrice zero_size_bid_book = 201 / 2"
    by (simp add: getMidPrice_def zero_size_bid_book_def)
  show "calculateTemporaryImpact [zero_size_bid_book] ''buy'' 10 =
     Inr [\<lparr>order_size = 10, avg_impact = 1 / 201, impact_bps = 10000 / 201\<rparr>]"
    by (simp add: calculateTemporaryImpact_def size_loop.simps emit_result_def
      snapshot_impact_def getMidPrice_def filled_def avg_price_def
      simulate_def impact_value_def zero_size_bid_book_def INT_MAX_def)
qed

subsection \<open>C3: the samples of the curve\<close>

text \<open>
  Claim C3. For every size, the accumulator holds exactly the impacts of the snapshots with
  positive mid-price and non-zero fill, in order. For a size of the sweep the result holds
  the one sample made of the arithmetic mean and the mean times 10000 when the accumulator
  is non-empty, and no sample for that size otherwise (nor for a size outside the sweep);
  an empty collection gives an empty curve. The call returns a result, with no overflow of
  the loop counter, for every \<open>max_shares\<close> below 2147483640.
\<close>

theorem curve_builder_samples:
  assumes "max_shares < 2147483640"
  shows "collect_impacts side n snapshots [] = accumulated snapshots side n \<and>
         (\<exists>results. calculateTemporaryImpact snapshots side max_shares = Inr results \<and>
            filter (\<lambda>r. order_size r = n) results =
              (if n \<in> set (step_sequence 10 max_shares 10)
               then size_sample snapshots side n else [])) \<and>
         calculateTemporaryImpact [] side max_shares = Inr []"
proof (intro conjI)
  show "collect_impacts side n snapshots [] = accumulated snapshots side n"
    by (simp add: collect_impacts_accumulated)
  show "\<exists>results. calculateTemporaryImpact snapshots side max_shares = Inr results \<and>
      filter (\<lambda>r. order_size r = n) results =
        (if n \<in> set (step_sequence 10 max_shares 10)
         then size_sample snapshots side n else [])"
    using assms
    by (simp add: calculateTemporaryImpact_result filter_concat_samples step_sequence_distinct)
  have "\<And>ns. concat (map (size_sample [] side) ns) = []"
    by (simp add: size_sample_def accumulated_def)
  with assms show "calculateTemporaryImpact [] side max_shares = Inr []"
    by (simp add: calculateTemporaryImpact_result)
qed

theorem curve_builder_samples_witness:
  "(20::int) < 2147483640 \<and> 10 \<in> set (step_sequence 10 20 10) \<and>
   collect_impacts ''buy'' 10 [two_level_book] [] = [3 / 200] \<and>
   (\<exists>results. calculateTemporaryImpact [two_level_book] ''buy'' 20 = Inr results \<and>
      filter (\<lambda>r. order_size r = 10) results =
        [\<lparr>order_size = 10, avg_impact = 3 / 200, impact_bps = 150\<rparr>]) \<and>
   calculateTemporaryImpact [] ''buy'' 20 = Inr []"
proof -
  have m: "(20::int) < 2147483640" by simp
  have n: "10 \<in> set (step_sequence 10 20 10)"
    by (simp add: step_sequence_def)
  have acc: "accumulated [two_level_book] ''buy'' 10 = [3 / 200]"
    by (simp add: accumulated_def contributing_def getMidPrice_def filled_def avg_price_def
        simulate_def impact_value_def two_level_book_def)
  have smp: "size_sample [two_level_book] ''buy'' 10 =
      [\<lparr>order_size = 10, avg_impact = 3 / 200, impact_bps = 150\<rparr>]"
    by (simp add: size_sample_def acc arithmetic_mean_def)
  from curve_builder_samples [OF m, of "''buy''" 10 "[two_level_book]"] m n
  show ?thesis by (simp add: acc smp)
qed

subsection \<open>C4: the sign of the impact\<close>




subsection \<open>C5: the filled quantity\<close>

text \<open>
  Claim C5, as the code has it. For a fixed snapshot and side the filled quantity is
  non-decreasing in the requested quantity. For a non-negative quantity it is at most the
  minimum of the quantity and the total depth of the consumed side, provided no level of
  that side has a negative size and the depth accessor returns a value.
\<close>

theorem filled_monotone_bounded:
  "(q1 \<le> q2 \<longrightarrow> filled side q1 s \<le> filled side q2 s) \<and>
   (0 \<le> q \<and> (\<forall>l \<in> set (consumption_side side s). 0 \<le> size_sh l) \<and>
      total_depth side s = Inr d \<longrightarrow> filled side q s \<le> min q d)"
proof (intro conjI impI)
  assume le: "q1 \<le> q2"
  have nn: "0 \<le> sum_list (map size_sh (takeWhile level_isValid (consumption_side side s)))"
    by (rule valid_prefix_sum_nonneg)
  with le show "filled side q1 s \<le> filled side q2 s"
    by (simp add: filled_eq min_def)
next
  assume h: "0 \<le> q \<and> (\<forall>l \<in> set (consumption_side side s). 0 \<le> size_sh l) \<and>
      total_depth side s = Inr d"
  then have "accumulate_sizes (consumption_side side s) 0 = Inr d"
    by (simp add: total_depth_def consumption_side_def getTotalAskDepth_def
        getTotalBidDepth_def split: if_splits)
  then have d: "d = sum_list (map size_sh (consumption_side side s))"
    using accumulate_sizes_sum by fastforce
  have "sum_list (map size_sh (takeWhile level_isValid (consumption_side side s))) \<le> d"
    unfolding d using h by (intro takeWhile_sum_le) simp
  moreover have "0 \<le> sum_list (map size_sh (takeWhile level_isValid (consumption_side side s)))"
    by (rule valid_prefix_sum_nonneg)
  ultimately show "filled side q s \<le> min q d"
    using h by (simp add: filled_eq min_def)
qed

theorem filled_monotone_bounded_witness:
  "filled ''buy'' 3 two_level_book \<le> filled ''buy'' 8 two_level_book \<and>
   filled ''buy'' 20 two_level_book \<le> min 20 10 \<and>
   filled ''buy'' 20 two_level_book = 10 \<and>
   total_depth ''buy'' two_level_book = Inr 10"
proof -
  have d: "total_depth ''buy'' two_level_book = Inr 10"
    by (simp add: total_depth_def getTotalAskDepth_def two_level_book_def INT_MAX_def INT_MIN_def)
  have nn: "\<forall>l \<in> set (consumption_side ''buy'' two_level_book). 0 \<le> size_sh l"
    by (simp add: consumption_side_def two_level_book_def)
  have f: "filled ''buy'' 20 two_level_book = 10"
    by (simp add: filled_def simulate_def two_level_book_def)
  from filled_monotone_bounded [of 3 8 "''buy''" two_level_book 20 10] d nn f
  show ?thesis by simp
qed

text \<open>
  With a negative size behind the best ask the depth sum is negative, and the fill of a
  buy order exceeds it. A negative quantity fills nothing, which is more than the quantity.
\<close>

theorem filled_depth_bound_counterexample:
  "getTotalAskDepth negative_size_book = Inr (- 2) \<and>
   filled ''buy'' 10 negative_size_book = 5 \<and>
   \<not> filled ''buy'' 10 negative_size_book \<le> min 10 (- 2) \<and>
   getTotalAskDepth two_level_book = Inr 10 \<and>
   filled ''buy'' (- 5) two_level_book = 0 \<and>
   \<not> filled ''buy'' (- 5) two_level_book \<le> min (- 5) 10"
proof (intro conjI)
  show "getTotalAskDepth negative_size_book = Inr (- 2)"
    by (simp add: getTotalAskDepth_def negative_size_book_def INT_MAX_def INT_MIN_def)
  show "filled ''buy'' 10 negative_size_book = 5"
    by (simp add: filled_def simulate_def negative_size_book_def)
  show "\<not> filled ''buy'' 10 negative_size_book \<le> min 10 (- 2)"
    by (simp add: filled_def simulate_def negative_size_book_def)
  show "getTotalAskDepth two_level_book = Inr 10"
    by (simp add: getTotalAskDepth_def two_level_book_def INT_MAX_def INT_MIN_def)
  show "filled ''buy'' (- 5) two_level_book = 0"
    by (simp add: filled_def simulate_def two_level_book_def)
  show "\<not> filled ''buy'' (- 5) two_level_book \<le> min (- 5) 10"
    by (simp add: filled_def simulate_def two_level_book_def)
qed

subsection \<open>C6: the average price\<close>

text \<open>
  Claim C6, as the code has it. Whenever shares are executed from at most ten levels with
  prices between \<open>price_min\<close> and \<open>price_max\<close>, the computed average price is a finite
  number between the lowest consumed price times \<open>1 - 1 / 2 ^ 48\<close> and the highest consumed
  price times \<open>1 + 1 / 2 ^ 48\<close>.
\<close>

theorem vwap_b64_within_rounding:
  assumes "0 < filled side q s" and "q \<le> INT_MAX"
    and "length (consumed q (consumption_side side s)) \<le> 10"
    and "\<forall>l \<in> set (consumed q (consumption_side side s)).
           price_min \<le> price l \<and> price l \<le> price_max"
  shows "\<exists>v. avg_price_fp b64_op side q s = Inr (Some v) \<and>
           Min (price ` set (consumed q (consumption_side side s))) * (1 - 1 / 2 ^ 48) \<le> v \<and>
           v \<le> Max (price ` set (consumed q (consumption_side side s))) * (1 + 1 / 2 ^ 48)"
proof -
  let ?cs = "consumed q (consumption_side side s)"
  let ?P = "price ` set ?cs"
  have ne: "?cs \<noteq> []" using assms(1) by (rule simulate_bounds(1))
  then have Pne: "?P \<noteq> {}" by simp
  have fin: "finite ?P" by simp
  have rng: "\<forall>l \<in> set ?cs. Min ?P \<le> price l \<and> price l \<le> Max ?P" by simp
  have "Min ?P \<in> ?P" using fin Pne by (rule Min_in)
  with assms(4) have lo: "price_min \<le> Min ?P" by auto
  have "Max ?P \<in> ?P" using fin Pne by (rule Max_in)
  with assms(4) have hi: "Max ?P \<le> price_max" by auto
  from avg_price_b64_bounds [OF assms(1,2,3) rng lo hi] show ?thesis .
qed

theorem vwap_b64_within_rounding_witness:
  "0 < filled ''buy'' 10 two_level_book \<and> (10::int) \<le> INT_MAX \<and>
   consumed 10 (consumption_side ''buy'' two_level_book) =
     [\<lparr>price = 101, size_sh = 5\<rparr>, \<lparr>price = 102, size_sh = 5\<rparr>] \<and>
   avg_price_fp b64_op ''buy'' 10 two_level_book = Inr (Some (203 / 2)) \<and>
   101 * (1 - 1 / 2 ^ 48) \<le> (203 / 2 :: real) \<and> (203 / 2 :: real) \<le> 102 * (1 + 1 / 2 ^ 48)"
proof -
  have f: "0 < filled ''buy'' 10 two_level_book"
    by (simp add: filled_def simulate_def two_level_book_def)
  have q: "(10::int) \<le> INT_MAX" by (simp add: INT_MAX_def)
  have c: "consumed 10 (consumption_side ''buy'' two_level_book) =
     [\<lparr>price = 101, size_sh = 5\<rparr>, \<lparr>price = 102, size_sh = 5\<rparr>]"
    by (simp add: consumption_side_def two_level_book_def)
  have k: "length (consumed 10 (consumption_side ''buy'' two_level_book)) \<le> 10"
    by (simp add: c)
  have r: "\<forall>l \<in> set (consumed 10 (consumption_side ''buy'' two_level_book)).
      price_min \<le> price l \<and> price l \<le> price_max"
    by (simp add: c price_min_def price_max_def)
  have a: "avg_price_fp b64_op ''buy'' 10 two_level_book = Inr (Some (203 / 2))"
    by (simp add: fp_defs sample_books b64_sample_values)
  from vwap_b64_within_rounding [OF f q k r] a c f q show ?thesis by simp
qed

text \<open>
  A buy of 10 shares from the one ask level at the binary64 number nearest to 0.11: the
  product is rounded up, and the quotient is the next binary64 number above the price. At
  the price \<open>2 ^ 1023\<close> the product is not finite.
\<close>

theorem vwap_rounding_counterexample:
  "b64 (11 / 100) = 7926335344172073 / 2 ^ 56 \<and>
   consumed 10 (consumption_side ''buy'' rounding_book) =
     [\<lparr>price = 7926335344172073 / 2 ^ 56, size_sh = 10\<rparr>] \<and>
   filled ''buy'' 10 rounding_book = 10 \<and>
   avg_price_fp b64_op ''buy'' 10 rounding_book = Inr (Some (7926335344172074 / 2 ^ 56)) \<and>
   \<not> (7926335344172074 / 2 ^ 56
        \<le> Max (price ` set (consumed 10 (consumption_side ''buy'' rounding_book)))) \<and>
   avg_price_fp b64_op ''buy'' 10 overflow_book = Inl NotFinite"
proof (intro conjI)
  show "b64 (11 / 100) = 7926335344172073 / 2 ^ 56"
    by (subst b64_normal [of _ "- 4"]) (simp_all add: round_even_def)
  show c: "consumed 10 (consumption_side ''buy'' rounding_book) =
     [\<lparr>price = 7926335344172073 / 2 ^ 56, size_sh = 10\<rparr>]"
    by (simp add: consumption_side_def rounding_book_def)
  show "filled ''buy'' 10 rounding_book = 10"
    by (simp add: filled_def simulate_def rounding_book_def)
  show "avg_price_fp b64_op ''buy'' 10 rounding_book = Inr (Some (7926335344172074 / 2 ^ 56))"
    by (simp add: fp_defs sample_books b64_sample_values)
  show "\<not> (7926335344172074 / 2 ^ 56
        \<le> Max (price ` set (consumed 10 (consumption_side ''buy'' rounding_book))))"
    by (simp add: c)
  show "avg_price_fp b64_op ''buy'' 10 overflow_book = Inl NotFinite"
    using b64_pow2_1026
    by (simp add: avg_price_fp_def simulate_fp_def overflow_book_def b64_op_def b64_max_def)
qed

subsection \<open>C7: the order of the curve\<close>

text \<open>
  Claim C7. The order sizes of the emitted samples are strictly increasing, and they are
  the step sequence 10, 20, ... up to \<open>max_shares\<close> without the sizes whose accumulator was
  empty.
\<close>

theorem curve_order_sizes:
  assumes "max_shares < 2147483640"
  shows "\<exists>results. calculateTemporaryImpact snapshots side max_shares = Inr results \<and>
           sorted_wrt (<) (map order_size results) \<and>
           map order_size results =
             filter (\<lambda>n. collect_impacts side n snapshots [] \<noteq> [])
               (step_sequence 10 max_shares 10)"
proof -
  let ?res = "concat (map (size_sample snapshots side) (step_sequence 10 max_shares 10))"
  have r: "calculateTemporaryImpact snapshots side max_shares = Inr ?res"
    using assms by (rule calculateTemporaryImpact_result)
  have m: "map order_size ?res =
      filter (\<lambda>n. collect_impacts side n snapshots [] \<noteq> []) (step_sequence 10 max_shares 10)"
    by (simp add: map_order_size_samples collect_impacts_accumulated)
  have "sorted_wrt (<) (map order_size ?res)"
    unfolding m by (rule sorted_wrt_filter) (rule step_sequence_sorted)
  with r m show ?thesis by blast
qed

theorem curve_order_sizes_witness:
  "(500::int) < 2147483640 \<and>
   (\<exists>results. calculateTemporaryImpact [two_level_book] ''buy'' 500 = Inr results \<and>
      sorted_wrt (<) (map order_size results) \<and>
      map order_size results =
        filter (\<lambda>n. collect_impacts ''buy'' n [two_level_book] [] \<noteq> [])
          (step_sequence 10 500 10))"
proof -
  have m: "(500::int) < 2147483640" by simp
  from curve_order_sizes [OF m, of "[two_level_book]" "''buy''"] m show ?thesis by simp
qed

subsection \<open>C8: arguments outside the intended range\<close>

text \<open>
  Claim C8, as the code has it. A \<open>max_shares\<close> below the first order size 10, negative
  values included, gives the empty curve and no failure. The first size and the step are
  the constants of the loop and are not arguments.
\<close>

theorem small_max_shares_empty:
  "max_shares < 10 \<Longrightarrow> calculateTemporaryImpact snapshots side max_shares = Inr []"
  unfolding calculateTemporaryImpact_def by (subst size_loop.simps) simp

theorem small_max_shares_empty_witness:
  "calculateTemporaryImpact [two_level_book] ''sell'' 9 = Inr []"
  using small_max_shares_empty [of 9 "[two_level_book]" "''sell''"] by simp

text \<open>
  A negative \<open>max_shares\<close> on a non-empty collection returns the empty curve.
\<close>

theorem no_loud_failure_counterexample:
  "calculateTemporaryImpact [two_level_book] ''buy'' (- 5) = Inr []"
  unfolding calculateTemporaryImpact_def by (subst size_loop.simps) simp

subsection \<open>C9: levels beyond the available depth\<close>

text \<open>
  Claim C9, as the code has it. Every snapshot the row loop builds has exactly ten bid and
  ten ask entries, and a price or size whose field is empty in the row is 0 in the
  snapshot: a level that is not in the data is a zero-filled entry.
\<close>

theorem loader_zero_fills_levels:
  assumes "parse_row stod stoi filename tokens = Some snapshot"
  shows "length (bids snapshot) = 10 \<and> length (asks snapshot) = 10 \<and>
         (\<forall>i<10. (tokens ! (13 + 6 * i) = [] \<longrightarrow> price (bids snapshot ! i) = 0) \<and>
                 (tokens ! (15 + 6 * i) = [] \<longrightarrow> size_sh (bids snapshot ! i) = 0) \<and>
                 (tokens ! (14 + 6 * i) = [] \<longrightarrow> price (asks snapshot ! i) = 0) \<and>
                 (tokens ! (16 + 6 * i) = [] \<longrightarrow> size_sh (asks snapshot ! i) = 0))"
proof -
  from assms obtain st where
    p: "parse_levels stod stoi tokens [0..<10]
          (replicate 10 default_level, replicate 10 default_level) = Some st" and
    b: "bids snapshot = fst st" and a: "asks snapshot = snd st"
    by (auto simp: parse_row_def split: if_splits option.splits)
  from parse_levels_inv [OF placeholder_inv_initial p] have "placeholder_inv tokens st" .
  then show ?thesis by (simp add: placeholder_inv_def a b)
qed

theorem loader_zero_fills_levels_witness:
  "parse_row sample_stod sample_stoi ''CRWV_2025-07-01.csv'' (sample_row []) =
     Some sample_snapshot \<and>
   sample_row [] ! (13 + 6 * 9) = [] \<and> sample_row [] ! (14 + 6 * 9) = [] \<and>
   length (bids sample_snapshot) = 10 \<and> length (asks sample_snapshot) = 10 \<and>
   price (bids sample_snapshot ! 9) = 0 \<and> price (asks sample_snapshot ! 9) = 0"
proof -
  have r: "parse_row sample_stod sample_stoi ''CRWV_2025-07-01.csv'' (sample_row []) =
      Some sample_snapshot"
    by code_simp
  have e: "sample_row [] ! (13 + 6 * 9) = []" "sample_row [] ! (14 + 6 * 9) = []"
    by code_simp+
  from loader_zero_fills_levels [OF r] e r show ?thesis by simp
qed

text \<open>
  A row without a tenth level and a row whose tenth level is priced at 0 give the same
  snapshot, with ten bid entries of which the last is the default level.
\<close>

theorem loader_placeholder_counterexample:
  "parse_row sample_stod sample_stoi ''CRWV_2025-07-01.csv'' (sample_row []) =
     Some sample_snapshot \<and>
   parse_row sample_stod sample_stoi ''CRWV_2025-07-01.csv'' (sample_row ''0'') =
     Some sample_snapshot \<and>
   length (bids sample_snapshot) = 10 \<and>
   bids sample_snapshot ! 9 = \<lparr>price = 0, size_sh = 0\<rparr>"
proof (intro conjI)
  show "parse_row sample_stod sample_stoi ''CRWV_2025-07-01.csv'' (sample_row []) =
      Some sample_snapshot"
    by code_simp
  show "parse_row sample_stod sample_stoi ''CRWV_2025-07-01.csv'' (sample_row ''0'') =
      Some sample_snapshot"
    by code_simp
  show "length (bids sample_snapshot) = 10"
    by (simp add: sample_snapshot_def)
  show "bids sample_snapshot ! 9 = \<lparr>price = 0, size_sh = 0\<rparr>"
    by code_simp
qed

subsection \<open>C10: side strings other than buy\<close>

text \<open>
  Claim C10. For every side string other than \<open>buy\<close> the curve is the curve of
  \<open>sell\<close>: the walk is over the bids, the impact is \<open>(mid - vwap) / mid\<close>, and the call
  returns a result whenever the loop counter does not overflow.
\<close>

theorem other_side_is_sell:
  assumes "side \<noteq> ''buy''"
  shows "calculateTemporaryImpact snapshots side max_shares =
           calculateTemporaryImpact snapshots ''sell'' max_shares \<and>
         simulate side q s = walk_levels (bids s) (0, 0, q) \<and>
         impact_value side v mid_price = (mid_price - v) / mid_price \<and>
         (max_shares < 2147483640 \<longrightarrow>
            (\<exists>results. calculateTemporaryImpact snapshots side max_shares = Inr results))"
proof (intro conjI impI)
  show "calculateTemporaryImpact snapshots side max_shares =
      calculateTemporaryImpact snapshots ''sell'' max_shares"
    unfolding calculateTemporaryImpact_def using assms by (rule size_loop_not_buy)
  show "simulate side q s = walk_levels (bids s) (0, 0, q)"
    using assms by (simp add: simulate_def)
  show "impact_value side v mid_price = (mid_price - v) / mid_price"
    using assms by (simp add: impact_value_def)
  assume "max_shares < 2147483640"
  then show "\<exists>results. calculateTemporaryImpact snapshots side max_shares = Inr results"
    by (simp add: calculateTemporaryImpact_result)
qed

theorem other_side_is_sell_witness:
  "''hold'' \<noteq> ''buy'' \<and>
   calculateTemporaryImpact [two_level_book] ''hold'' 20 =
     calculateTemporaryImpact [two_level_book] ''sell'' 20 \<and>
   simulate ''hold'' 8 two_level_book = (789, 8, 0) \<and>
   (\<exists>results. calculateTemporaryImpact [two_level_book] ''hold'' 20 = Inr results)"
proof -
  have nb: "''hold'' \<noteq> ''buy''" by simp
  have w: "walk_levels (bids two_level_book) (0, 0, 8) = (789, 8, 0)"
    by (simp add: two_level_book_def)
  note t = other_side_is_sell [OF nb, of "[two_level_book]" 20 8 two_level_book 100 100]
  from t have e: "calculateTemporaryImpact [two_level_book] ''hold'' 20 =
      calculateTemporaryImpact [two_level_book] ''sell'' 20" by simp
  from t w have s: "simulate ''hold'' 8 two_level_book = (789, 8, 0)" by simp
  have r: "\<exists>results. calculateTemporaryImpact [two_level_book] ''hold'' 20 = Inr results"
    using t [THEN conjunct2, THEN conjunct2, THEN conjunct2] by simp
  from nb e s r show ?thesis by blast
qed

end
